theory Spec2Isabelle
  imports Main
begin

section \<open>The lexical rule table\<close>

text \<open>
  The program is one Python module, \<^verbatim>\<open>resilience.py\<close>: a lexer driven by the ordered
  table \<^verbatim>\<open>TOKEN_TYPES\<close> and two recursive-descent parsers, \<^verbatim>\<open>TokenConstraintParser\<close> and
  its subclass \<^verbatim>\<open>TokenPatternParser\<close>.

  A token is the pair \<^verbatim>\<open>(token_type, lexeme)\<close>. The source names token types by strings;
  the names it uses are exactly the keys of \<^verbatim>\<open>TOKEN_TYPES\<close>, so they are a datatype here,
  listed in the order of the table.
\<close>

datatype token_type =
    WHITESPACE | LBRACKET | RBRACKET | LPAREN | RPAREN | AND | OR | NOT | EQUALS
  | STAR | PLUS | QUESTION | WORD | STRING | NUMBER | AT | COLON | CAPTURE_START
  | CAPTURE_END | START_ASSERT | END_ASSERT | LOOKAHEAD_START | LOOKAHEAD_END

type_synonym token = "token_type \<times> string"

text \<open>
  Every \<^verbatim>\<open>raise\<close> of the module is a \<^verbatim>\<open>SyntaxError\<close> whose message is a fixed text with
  values spliced in. An error value keeps the raise site and the spliced values:
  \<^item> \<open>Unknown_character c\<close>: \<^verbatim>\<open>f"Unknown character: {self.text[pos]}"\<close>;
  \<^item> \<open>Expected_but_got expected got\<close>: \<^verbatim>\<open>f"Expected {expected} but got {got}"\<close>, where
    \<open>got = None\<close> stands for \<^verbatim>\<open>'EOF'\<close>;
  \<^item> \<open>Expected_FieldConstraint\<close>:
    \<^verbatim>\<open>"Expected FieldConstraint or nested DisjunctiveConstraint"\<close>;
  \<^item> \<open>Expected_string\<close>: \<^verbatim>\<open>"Expected string"\<close>;
  \<^item> \<open>Unexpected_token lexeme\<close>: \<^verbatim>\<open>f"Unexpected token '{...}' in AtomicTokenPattern"\<close>,
    with \<open>None\<close> for \<^verbatim>\<open>'EOF'\<close>.
  \<open>TypeError_None\<close> is the \<^verbatim>\<open>TypeError\<close> Python raises when \<^verbatim>\<open>self.current_token[1]\<close> is
  evaluated while \<^verbatim>\<open>current_token\<close> is \<^verbatim>\<open>None\<close>.
\<close>

datatype error =
    Unknown_character char
  | Expected_but_got token_type "token_type option"
  | Expected_FieldConstraint
  | Expected_string
  | Unexpected_token "string option"
  | TypeError_None

subsection \<open>The regular expressions of the table\<close>

text \<open>
  \<^verbatim>\<open>pattern.match(text, pos)\<close> anchors the pattern at \<open>pos\<close> and returns a match object
  or \<^verbatim>\<open>None\<close>; the lexer reads \<^verbatim>\<open>match.end()\<close> and \<^verbatim>\<open>match.group()\<close> from it. A pattern
  is modelled by the function that gives the end position of its match. None of the
  patterns of the table looks behind \<open>pos\<close>. The table needs four forms only:
  a literal string, \<^verbatim>\<open>c+\<close> for a character class (greedy), a quoted run \<^verbatim>\<open>q.*?q\<close>
  (lazy, and \<^verbatim>\<open>.\<close> does not match a newline), and ordered alternation \<^verbatim>\<open>a|b\<close>.

  A \<open>char\<close> is read as the code point of the same number, so the text ranges over the
  code points below 256; the classes \<^verbatim>\<open>\s\<close>, \<^verbatim>\<open>\w\<close> and \<^verbatim>\<open>\d\<close> are those of Python's
  \<^verbatim>\<open>re\<close> for \<^verbatim>\<open>str\<close> patterns on that range.
\<close>

type_synonym regex = "string \<Rightarrow> nat \<Rightarrow> nat option"

definition lit :: "string \<Rightarrow> regex" where
  "lit l text pos =
     (if take (length l) (drop pos text) = l then Some (pos + length l) else None)"

definition one_or_more :: "(char \<Rightarrow> bool) \<Rightarrow> regex" where
  "one_or_more cls text pos =
     (let n = length (takeWhile cls (drop pos text))
      in if n = 0 then None else Some (pos + n))"

definition quoted :: "char \<Rightarrow> regex" where
  "quoted q text pos =
     (case drop pos text of
        [] \<Rightarrow> None
      | c # rest \<Rightarrow>
          if c \<noteq> q then None
          else let body = takeWhile (\<lambda>x. x \<noteq> q \<and> x \<noteq> CHR 0x0A) rest
               in if length body < length rest \<and> rest ! length body = q
                  then Some (pos + length body + 2) else None)"

fun alt :: "regex list \<Rightarrow> regex" where
  "alt [] text pos = None"
| "alt (r # rs) text pos =
     (case r text pos of Some e \<Rightarrow> Some e | None \<Rightarrow> alt rs text pos)"

definition is_space :: "char \<Rightarrow> bool" where
  "is_space c = (let n = of_char c :: nat in
     (9 \<le> n \<and> n \<le> 13) \<or> (28 \<le> n \<and> n \<le> 32) \<or> n = 133 \<or> n = 160)"

definition is_digit :: "char \<Rightarrow> bool" where
  "is_digit c = (let n = of_char c :: nat in 48 \<le> n \<and> n \<le> 57)"

definition is_word :: "char \<Rightarrow> bool" where
  "is_word c = (let n = of_char c :: nat in
     (48 \<le> n \<and> n \<le> 57) \<or> (65 \<le> n \<and> n \<le> 90) \<or> n = 95 \<or> (97 \<le> n \<and> n \<le> 122)
     \<or> n = 170 \<or> n = 178 \<or> n = 179 \<or> n = 181 \<or> n = 185 \<or> n = 186
     \<or> (188 \<le> n \<and> n \<le> 190) \<or> (192 \<le> n \<and> n \<le> 214) \<or> (216 \<le> n \<and> n \<le> 246)
     \<or> 248 \<le> n)"

text \<open>
  The alternatives of the \<^verbatim>\<open>WORD\<close> pattern
  \<^verbatim>\<open>word|lemma|tag|entity|chunk|incoming|outgoing|mention\<close>, in their order.
\<close>

definition field_names :: "string list" where
  "field_names = [''word'', ''lemma'', ''tag'', ''entity'', ''chunk'', ''incoming'',
                  ''outgoing'', ''mention'']"

text \<open>The table, in the insertion order of the dictionary, which is its iteration order.\<close>

definition TOKEN_TYPES :: "(token_type \<times> regex) list" where
  "TOKEN_TYPES =
    [(WHITESPACE, one_or_more is_space),
     (LBRACKET, lit ''[''),
     (RBRACKET, lit '']''),
     (LPAREN, lit ''(''),
     (RPAREN, lit '')''),
     (AND, lit ''&''),
     (OR, lit ''|''),
     (NOT, lit ''!''),
     (EQUALS, lit ''=''),
     (STAR, lit ''*''),
     (PLUS, lit ''+''),
     (QUESTION, lit ''?''),
     (WORD, alt (map lit field_names)),
     (STRING, alt [quoted (CHR 0x22), quoted (CHR 0x27), one_or_more is_word]),
     (NUMBER, one_or_more is_digit),
     (AT, lit ''@''),
     (COLON, lit '':''),
     (CAPTURE_START, lit ''(?<''),
     (CAPTURE_END, lit '')''),
     (START_ASSERT, lit ''^''),
     (END_ASSERT, lit ''$''),
     (LOOKAHEAD_START, alt [lit ''(?='', lit ''(?!'']),
     (LOOKAHEAD_END, lit '')'')]"

section \<open>The lexer\<close>

text \<open>
  The \<^verbatim>\<open>for\<close> loop of \<^verbatim>\<open>Lexer.tokenize\<close>: the rules are tried in table order and the
  first one that matches at \<open>pos\<close> is taken. The result is the token type and the end of
  the match, or \<open>None\<close> when the loop ends with \<^verbatim>\<open>match\<close> still \<^verbatim>\<open>None\<close>.
\<close>

fun first_match :: "(token_type \<times> regex) list \<Rightarrow> string \<Rightarrow> nat \<Rightarrow> (token_type \<times> nat) option" where
  "first_match [] text pos = None"
| "first_match ((token_type, rx) # rules) text pos =
     (case rx text pos of
        Some e \<Rightarrow> Some (token_type, e)
      | None \<Rightarrow> first_match rules text pos)"

text \<open>Every rule of the table consumes at least one character and stays inside the text.\<close>

lemma lit_progress:
  "lit l text pos = Some e \<Longrightarrow> l \<noteq> [] \<Longrightarrow> pos < e \<and> e \<le> length text"
proof -
  assume m: "lit l text pos = Some e" and ne: "l \<noteq> []"
  from m have t: "take (length l) (drop pos text) = l" and e: "e = pos + length l"
    by (auto simp: lit_def split: if_splits)
  from t have "length (take (length l) (drop pos text)) = length l" by simp
  then have "length l \<le> length text - pos" by simp
  with ne e show ?thesis by (cases l) auto
qed

lemma one_or_more_progress:
  "one_or_more cls text pos = Some e \<Longrightarrow> pos < e \<and> e \<le> length text"
proof -
  assume m: "one_or_more cls text pos = Some e"
  let ?n = "length (takeWhile cls (drop pos text))"
  from m have n: "?n \<noteq> 0" and e: "e = pos + ?n"
    by (auto simp: one_or_more_def Let_def split: if_splits)
  from n have "drop pos text \<noteq> []" by auto
  then have "pos < length text" by simp
  moreover have "?n \<le> length (drop pos text)" by (rule length_takeWhile_le)
  ultimately show ?thesis using n e by auto
qed

lemma quoted_progress:
  "quoted q text pos = Some e \<Longrightarrow> pos < e \<and> e \<le> length text"
proof -
  assume m: "quoted q text pos = Some e"
  then obtain c rest where d: "drop pos text = c # rest"
    by (cases "drop pos text") (auto simp: quoted_def)
  let ?body = "takeWhile (\<lambda>x. x \<noteq> q \<and> x \<noteq> CHR 0x0A) rest"
  from m d have b: "length ?body < length rest" and e: "e = pos + length ?body + 2"
    by (auto simp: quoted_def Let_def split: if_splits)
  from d have "length text - pos = Suc (length rest)"
    by (metis length_drop length_Cons)
  with b e show ?thesis by auto
qed

lemma first_match_progress:
  "first_match TOKEN_TYPES text pos = Some (ty, e) \<Longrightarrow> pos < e \<and> e \<le> length text"
  by (auto simp: TOKEN_TYPES_def field_names_def split: option.splits
           dest!: lit_progress one_or_more_progress quoted_progress)

text \<open>
  The \<^verbatim>\<open>while\<close> loop of \<^verbatim>\<open>Lexer.tokenize\<close>, with the scan position and the token list
  built so far (\<^verbatim>\<open>self.tokens\<close>) as loop state. \<^verbatim>\<open>match.group()\<close> is the slice
  \<^verbatim>\<open>text[pos:e]\<close>. Whitespace advances the position without a token; when no rule
  matches the loop raises with the character at \<open>pos\<close>.
\<close>

function tokenize_loop :: "string \<Rightarrow> nat \<Rightarrow> token list \<Rightarrow> error + token list" where
  "tokenize_loop text pos tokens =
     (if pos < length text then
        (case first_match TOKEN_TYPES text pos of
           None \<Rightarrow> Inl (Unknown_character (text ! pos))
         | Some (token_type, e) \<Rightarrow>
             tokenize_loop text e
               (if token_type \<noteq> WHITESPACE
                then tokens @ [(token_type, take (e - pos) (drop pos text))]
                else tokens))
      else Inr tokens)"
  by pat_completeness auto
termination
  by (relation "measure (\<lambda>(text, pos, tokens). length text - pos)")
     (auto dest: first_match_progress)

declare tokenize_loop.simps [simp del]

definition tokenize :: "string \<Rightarrow> error + token list" where
  "tokenize text = tokenize_loop text 0 []"

section \<open>The abstract syntax tree\<close>

text \<open>
  The parsers build Python tuples whose first component is a tag: \<^verbatim>\<open>('OR', left, right)\<close>,
  \<^verbatim>\<open>('AND', left, right)\<close>, \<^verbatim>\<open>('NOT', operand)\<close>, \<^verbatim>\<open>('FIELD', field_name, matcher)\<close>,
  \<^verbatim>\<open>('EXACT', literal)\<close>, \<^verbatim>\<open>('SEQ', patterns)\<close>, \<^verbatim>\<open>('QUANT', atom, quantifier)\<close>,
  \<^verbatim>\<open>('MENTION', mention)\<close> and \<^verbatim>\<open>('CAPTURE', capture_name, pattern)\<close>. The value \<^verbatim>\<open>None\<close>
  occurs in two places: as the result of \<^verbatim>\<open>token_constraint\<close> for an empty bracket, and as
  the second component of a \<^verbatim>\<open>MENTION\<close> tuple with no name. It is the constructor
  \<open>AST_None\<close>.
\<close>

datatype ast =
    AST_None
  | AST_OR ast ast
  | AST_AND ast ast
  | AST_NOT ast
  | AST_FIELD string ast
  | AST_EXACT string
  | AST_SEQ "ast list"
  | AST_QUANT ast string
  | AST_MENTION ast
  | AST_CAPTURE string ast

section \<open>The constraint parser\<close>

text \<open>
  The state of a parser object: the tokens still held by its lexer (\<^verbatim>\<open>self.lexer.tokens\<close>)
  and \<^verbatim>\<open>self.current_token\<close>. A production takes the state and returns the error it
  raises or its result with the state it leaves.
\<close>

record parser =
  tokens :: "token list"
  current_token :: "token option"

text \<open>\<^verbatim>\<open>Lexer.next_token\<close>: \<^verbatim>\<open>self.tokens.pop(0) if self.tokens else None\<close>.\<close>

definition next_token :: "parser \<Rightarrow> token option \<times> parser" where
  "next_token p =
     (case tokens p of
        [] \<Rightarrow> (None, p)
      | t # rest \<Rightarrow> (Some t, p\<lparr>tokens := rest\<rparr>))"

text \<open>\<^verbatim>\<open>TokenConstraintParser.__init__\<close>, which the subclass inherits.\<close>

definition TokenConstraintParser :: "token list \<Rightarrow> parser" where
  "TokenConstraintParser toks =
     (case next_token \<lparr>tokens = toks, current_token = None\<rparr> of
        (t, p) \<Rightarrow> p\<lparr>current_token := t\<rparr>)"

text \<open>
  The test \<^verbatim>\<open>self.current_token and self.current_token[0] == T\<close> is
  \<open>current_type p = Some T\<close>: a token is a pair, hence truthy, and \<^verbatim>\<open>None\<close> is falsy.
\<close>

definition current_type :: "parser \<Rightarrow> token_type option" where
  "current_type p = map_option fst (current_token p)"

definition eat :: "token_type \<Rightarrow> parser \<Rightarrow> error + parser" where
  "eat token_type p =
     (if current_type p = Some token_type
      then (case next_token p of (t, p') \<Rightarrow> Inr (p'\<lparr>current_token := t\<rparr>))
      else Inl (Expected_but_got token_type (current_type p)))"

definition string_matcher :: "parser \<Rightarrow> error + ast \<times> parser" where
  "string_matcher p =
     (if current_type p = Some STRING
      then (case current_token p of
              None \<Rightarrow> Inl TypeError_None
            | Some (_, literal) \<Rightarrow>
                (case eat STRING p of
                   Inl e \<Rightarrow> Inl e
                 | Inr p1 \<Rightarrow> Inr (AST_EXACT literal, p1)))
      else Inl Expected_string)"

definition field_constraint :: "parser \<Rightarrow> error + ast \<times> parser" where
  "field_constraint p =
     (case current_token p of
        None \<Rightarrow> Inl TypeError_None
      | Some (_, field_name) \<Rightarrow>
          (case eat WORD p of
             Inl e \<Rightarrow> Inl e
           | Inr p1 \<Rightarrow>
               (case eat EQUALS p1 of
                  Inl e \<Rightarrow> Inl e
                | Inr p2 \<Rightarrow>
                    (case string_matcher p2 of
                       Inl e \<Rightarrow> Inl e
                     | Inr (matcher, p3) \<Rightarrow> Inr (AST_FIELD field_name matcher, p3)))))"

text \<open>
  The recursive productions. Each \<^verbatim>\<open>while\<close> loop is a function of its own, named after
  the production with the suffix \<open>_loop\<close>, whose arguments are the loop variable
  \<^verbatim>\<open>left\<close> and the parser state.
\<close>

function disjunctive_constraint :: "parser \<Rightarrow> error + ast \<times> parser"
  and disjunctive_constraint_loop :: "ast \<Rightarrow> parser \<Rightarrow> error + ast \<times> parser"
  and conjunctive_constraint :: "parser \<Rightarrow> error + ast \<times> parser"
  and conjunctive_constraint_loop :: "ast \<Rightarrow> parser \<Rightarrow> error + ast \<times> parser"
  and negated_constraint :: "parser \<Rightarrow> error + ast \<times> parser"
  and atomic_constraint :: "parser \<Rightarrow> error + ast \<times> parser"
where
  "disjunctive_constraint p =
     (case conjunctive_constraint p of
        Inl e \<Rightarrow> Inl e
      | Inr (left, p1) \<Rightarrow> disjunctive_constraint_loop left p1)"
| "disjunctive_constraint_loop left p =
     (if current_type p = Some OR
      then (case eat OR p of
              Inl e \<Rightarrow> Inl e
            | Inr p1 \<Rightarrow>
                (case conjunctive_constraint p1 of
                   Inl e \<Rightarrow> Inl e
                 | Inr (right, p2) \<Rightarrow> disjunctive_constraint_loop (AST_OR left right) p2))
      else Inr (left, p))"
| "conjunctive_constraint p =
     (case negated_constraint p of
        Inl e \<Rightarrow> Inl e
      | Inr (left, p1) \<Rightarrow> conjunctive_constraint_loop left p1)"
| "conjunctive_constraint_loop left p =
     (if current_type p = Some AND
      then (case eat AND p of
              Inl e \<Rightarrow> Inl e
            | Inr p1 \<Rightarrow>
                (case negated_constraint p1 of
                   Inl e \<Rightarrow> Inl e
                 | Inr (right, p2) \<Rightarrow> conjunctive_constraint_loop (AST_AND left right) p2))
      else Inr (left, p))"
| "negated_constraint p =
     (if current_type p = Some NOT
      then (case eat NOT p of
              Inl e \<Rightarrow> Inl e
            | Inr p1 \<Rightarrow>
                (case atomic_constraint p1 of
                   Inl e \<Rightarrow> Inl e
                 | Inr (operand, p2) \<Rightarrow> Inr (AST_NOT operand, p2)))
      else atomic_constraint p)"
| "atomic_constraint p =
     (if current_type p = Some WORD then field_constraint p
      else if current_type p = Some LPAREN
      then (case eat LPAREN p of
              Inl e \<Rightarrow> Inl e
            | Inr p1 \<Rightarrow>
                (case disjunctive_constraint p1 of
                   Inl e \<Rightarrow> Inl e
                 | Inr (disjunction, p2) \<Rightarrow>
                     (case eat RPAREN p2 of
                        Inl e \<Rightarrow> Inl e
                      | Inr p3 \<Rightarrow> Inr (disjunction, p3))))
      else Inl Expected_FieldConstraint)"
  by pat_completeness auto

text \<open>
  Termination: a production never leaves more tokens than it found, and \<open>eat\<close> removes
  one. \<open>remaining\<close> counts the current token and the tokens behind it.
\<close>

definition remaining :: "parser \<Rightarrow> nat" where
  "remaining p = (case current_token p of None \<Rightarrow> 0 | Some _ \<Rightarrow> Suc (length (tokens p)))"

lemma eat_remaining: "eat t p = Inr p' \<Longrightarrow> remaining p' < remaining p"
  by (auto simp: eat_def remaining_def next_token_def current_type_def
           split: if_splits list.splits option.splits)

lemma string_matcher_remaining:
  "string_matcher p = Inr (a, p') \<Longrightarrow> remaining p' < remaining p"
  by (auto simp: string_matcher_def split: if_splits option.splits sum.splits
           dest: eat_remaining)

lemma field_constraint_remaining:
  "field_constraint p = Inr (a, p') \<Longrightarrow> remaining p' < remaining p"
  by (fastforce simp: field_constraint_def split: option.splits sum.splits
                dest: eat_remaining string_matcher_remaining)

abbreviation "constraint_dom \<equiv> disjunctive_constraint_disjunctive_constraint_loop_conjunctive_constraint_conjunctive_constraint_loop_negated_constraint_atomic_constraint_dom"

lemmas constraint_pinduct = disjunctive_constraint_disjunctive_constraint_loop_conjunctive_constraint_conjunctive_constraint_loop_negated_constraint_atomic_constraint.pinduct

lemmas constraint_psimps = disjunctive_constraint.psimps disjunctive_constraint_loop.psimps
  conjunctive_constraint.psimps conjunctive_constraint_loop.psimps negated_constraint.psimps
  atomic_constraint.psimps

lemma constraint_shrinks_partial:
  "constraint_dom (Inl (Inl p1)) \<Longrightarrow>
     (\<forall>a p'. disjunctive_constraint p1 = Inr (a, p') \<longrightarrow> remaining p' \<le> remaining p1)"
  "constraint_dom (Inl (Inr (Inl (l2, p2)))) \<Longrightarrow>
     (\<forall>a p'. disjunctive_constraint_loop l2 p2 = Inr (a, p') \<longrightarrow> remaining p' \<le> remaining p2)"
  "constraint_dom (Inl (Inr (Inr p3))) \<Longrightarrow>
     (\<forall>a p'. conjunctive_constraint p3 = Inr (a, p') \<longrightarrow> remaining p' \<le> remaining p3)"
  "constraint_dom (Inr (Inl (l4, p4))) \<Longrightarrow>
     (\<forall>a p'. conjunctive_constraint_loop l4 p4 = Inr (a, p') \<longrightarrow> remaining p' \<le> remaining p4)"
  "constraint_dom (Inr (Inr (Inl p5))) \<Longrightarrow>
     (\<forall>a p'. negated_constraint p5 = Inr (a, p') \<longrightarrow> remaining p' \<le> remaining p5)"
  "constraint_dom (Inr (Inr (Inr p6))) \<Longrightarrow>
     (\<forall>a p'. atomic_constraint p6 = Inr (a, p') \<longrightarrow> remaining p' \<le> remaining p6)"
proof (induct rule: constraint_pinduct)
  case (1 p)
  then show ?case
    by (auto simp: constraint_psimps split: sum.splits prod.splits) fastforce
next
  case (2 left p)
  then show ?case
    by (auto simp: constraint_psimps split: sum.splits prod.splits if_splits
             dest: eat_remaining)
       (fastforce dest: eat_remaining)+
next
  case (3 p)
  then show ?case
    by (auto simp: constraint_psimps split: sum.splits prod.splits) fastforce
next
  case (4 left p)
  then show ?case
    by (auto simp: constraint_psimps split: sum.splits prod.splits if_splits
             dest: eat_remaining)
       (fastforce dest: eat_remaining)+
next
  case (5 p)
  then show ?case
    by (auto simp: constraint_psimps split: sum.splits prod.splits if_splits
             dest: eat_remaining)
       (fastforce dest: eat_remaining)+
next
  case (6 p)
  then show ?case
    by (auto simp: constraint_psimps split: sum.splits prod.splits if_splits
             dest: eat_remaining field_constraint_remaining)
       (fastforce dest: eat_remaining)+
qed

lemma conjunctive_constraint_shrinks:
  "constraint_dom (Inl (Inr (Inr p))) \<Longrightarrow> conjunctive_constraint p = Inr (a, p') \<Longrightarrow>
   remaining p' \<le> remaining p"
  by (simp add: constraint_shrinks_partial(3))

lemma negated_constraint_shrinks:
  "constraint_dom (Inr (Inr (Inl p))) \<Longrightarrow> negated_constraint p = Inr (a, p') \<Longrightarrow>
   remaining p' \<le> remaining p"
  by (simp add: constraint_shrinks_partial(5))

termination disjunctive_constraint
  apply (relation "inv_image (measure id <*lex*> measure id)
     (\<lambda>x. case x of
        Inl (Inl p) \<Rightarrow> (remaining p, 5::nat)
      | Inl (Inr (Inl (l, p))) \<Rightarrow> (remaining p, 4)
      | Inl (Inr (Inr p)) \<Rightarrow> (remaining p, 3)
      | Inr (Inl (l, p)) \<Rightarrow> (remaining p, 2)
      | Inr (Inr (Inl p)) \<Rightarrow> (remaining p, 1)
      | Inr (Inr (Inr p)) \<Rightarrow> (remaining p, 0))")
  apply (auto dest!: conjunctive_constraint_shrinks negated_constraint_shrinks
              dest: eat_remaining)
  done

declare disjunctive_constraint.simps [simp del] disjunctive_constraint_loop.simps [simp del]
  conjunctive_constraint.simps [simp del] conjunctive_constraint_loop.simps [simp del]
  negated_constraint.simps [simp del] atomic_constraint.simps [simp del]

text \<open>
  \<^verbatim>\<open>token_constraint\<close>: \<^verbatim>\<open>constraint\<close> starts as \<^verbatim>\<open>None\<close> and is overwritten only when a
  token other than \<^verbatim>\<open>]\<close> follows the opening bracket. \<^verbatim>\<open>parse\<close> is the entry point of
  the constraint parser.
\<close>

definition token_constraint :: "parser \<Rightarrow> error + ast \<times> parser" where
  "token_constraint p =
     (case eat LBRACKET p of
        Inl e \<Rightarrow> Inl e
      | Inr p1 \<Rightarrow>
          (case (if current_token p1 \<noteq> None \<and> current_type p1 \<noteq> Some RBRACKET
                 then disjunctive_constraint p1
                 else Inr (AST_None, p1)) of
             Inl e \<Rightarrow> Inl e
           | Inr (constraint, p2) \<Rightarrow>
               (case eat RBRACKET p2 of
                  Inl e \<Rightarrow> Inl e
                | Inr p3 \<Rightarrow> Inr (constraint, p3))))"

definition parse :: "parser \<Rightarrow> error + ast \<times> parser" where
  "parse p = token_constraint p"

lemmas constraint_induct = disjunctive_constraint_disjunctive_constraint_loop_conjunctive_constraint_conjunctive_constraint_loop_negated_constraint_atomic_constraint.induct

lemmas constraint_simps = disjunctive_constraint.simps disjunctive_constraint_loop.simps
  conjunctive_constraint.simps conjunctive_constraint_loop.simps negated_constraint.simps
  atomic_constraint.simps

lemma constraint_remaining:
  "disjunctive_constraint p1 = Inr (a1, q1) \<Longrightarrow> remaining q1 < remaining p1"
  "disjunctive_constraint_loop l2 p2 = Inr (a2, q2) \<Longrightarrow> remaining q2 \<le> remaining p2"
  "conjunctive_constraint p3 = Inr (a3, q3) \<Longrightarrow> remaining q3 < remaining p3"
  "conjunctive_constraint_loop l4 p4 = Inr (a4, q4) \<Longrightarrow> remaining q4 \<le> remaining p4"
  "negated_constraint p5 = Inr (a5, q5) \<Longrightarrow> remaining q5 < remaining p5"
  "atomic_constraint p6 = Inr (a6, q6) \<Longrightarrow> remaining q6 < remaining p6"
proof (induct p1 and l2 p2 and p3 and l4 p4 and p5 and p6
       arbitrary: a1 q1 and a2 q2 and a3 q3 and a4 q4 and a5 q5 and a6 q6
       rule: constraint_induct)
  case (1 p)
  from "1.prems" obtain left pm where
    c: "conjunctive_constraint p = Inr (left, pm)" and
    l: "disjunctive_constraint_loop left pm = Inr (a1, q1)"
    by (auto simp: disjunctive_constraint.simps[of p] split: sum.splits)
  from "1.hyps"(1)[OF c] "1.hyps"(2)[OF c refl l] show ?case by simp
next
  case (2 left p)
  show ?case
  proof (cases "current_type p = Some OR")
    case True
    with "2.prems" obtain pa right pb where
      e: "eat OR p = Inr pa" and c: "conjunctive_constraint pa = Inr (right, pb)" and
      l: "disjunctive_constraint_loop (AST_OR left right) pb = Inr (a2, q2)"
      by (auto simp: disjunctive_constraint_loop.simps[of left p] split: sum.splits)
    from eat_remaining[OF e] "2.hyps"(1)[OF True e c] "2.hyps"(2)[OF True e c refl l]
    show ?thesis by simp
  next
    case False
    with "2.prems" show ?thesis
      by (simp add: disjunctive_constraint_loop.simps[of left p])
  qed
next
  case (3 p)
  from "3.prems" obtain left pm where
    c: "negated_constraint p = Inr (left, pm)" and
    l: "conjunctive_constraint_loop left pm = Inr (a3, q3)"
    by (auto simp: conjunctive_constraint.simps[of p] split: sum.splits)
  from "3.hyps"(1)[OF c] "3.hyps"(2)[OF c refl l] show ?case by simp
next
  case (4 left p)
  show ?case
  proof (cases "current_type p = Some AND")
    case True
    with "4.prems" obtain pa right pb where
      e: "eat AND p = Inr pa" and c: "negated_constraint pa = Inr (right, pb)" and
      l: "conjunctive_constraint_loop (AST_AND left right) pb = Inr (a4, q4)"
      by (auto simp: conjunctive_constraint_loop.simps[of left p] split: sum.splits)
    from eat_remaining[OF e] "4.hyps"(1)[OF True e c] "4.hyps"(2)[OF True e c refl l]
    show ?thesis by simp
  next
    case False
    with "4.prems" show ?thesis
      by (simp add: conjunctive_constraint_loop.simps[of left p])
  qed
next
  case (5 p)
  show ?case
  proof (cases "current_type p = Some NOT")
    case True
    with "5.prems" obtain pa operand where
      e: "eat NOT p = Inr pa" and c: "atomic_constraint pa = Inr (operand, q5)"
      by (auto simp: negated_constraint.simps[of p] split: sum.splits)
    from eat_remaining[OF e] "5.hyps"(1)[OF True e c] show ?thesis by simp
  next
    case False
    with "5.prems" have "atomic_constraint p = Inr (a5, q5)"
      by (simp add: negated_constraint.simps[of p])
    from "5.hyps"(2)[OF False this] show ?thesis .
  qed
next
  case (6 p)
  show ?case
  proof (cases "current_type p = Some WORD")
    case True
    with "6.prems" show ?thesis
      by (simp add: atomic_constraint.simps[of p] field_constraint_remaining)
  next
    case False
    show ?thesis
    proof (cases "current_type p = Some LPAREN")
      case True
      with False "6.prems" obtain pa pb where
        e: "eat LPAREN p = Inr pa" and c: "disjunctive_constraint pa = Inr (a6, pb)" and
        r: "eat RPAREN pb = Inr q6"
        by (auto simp: atomic_constraint.simps[of p] split: sum.splits)
      from eat_remaining[OF e] "6.hyps"[OF False True e c] eat_remaining[OF r]
      show ?thesis by simp
    next
      case F2: False
      with False "6.prems" show ?thesis
        by (simp add: atomic_constraint.simps[of p])
    qed
  qed
qed

lemma token_constraint_remaining:
  "token_constraint p = Inr (a, p') \<Longrightarrow> remaining p' < remaining p"
proof -
  assume t: "token_constraint p = Inr (a, p')"
  then obtain p1 p2 where e: "eat LBRACKET p = Inr p1" and
    m: "(if current_token p1 \<noteq> None \<and> current_type p1 \<noteq> Some RBRACKET
         then disjunctive_constraint p1 else Inr (AST_None, p1)) = Inr (a, p2)" and
    r: "eat RBRACKET p2 = Inr p'"
    by (auto simp: token_constraint_def split: sum.splits)
  from m have "remaining p2 \<le> remaining p1"
    by (auto split: if_splits dest: constraint_remaining(1))
  with eat_remaining[OF e] eat_remaining[OF r] show ?thesis by simp
qed


section \<open>The pattern parser\<close>

text \<open>
  \<^verbatim>\<open>TokenPatternParser\<close> inherits \<^verbatim>\<open>eat\<close>, \<^verbatim>\<open>field_constraint\<close>, \<^verbatim>\<open>string_matcher\<close> and
  \<^verbatim>\<open>token_constraint\<close> and overrides none of the constraint productions.
\<close>

definition TokenPatternParser :: "token list \<Rightarrow> parser" where
  "TokenPatternParser toks = TokenConstraintParser toks"

definition mention_token_pattern :: "parser \<Rightarrow> error + ast \<times> parser" where
  "mention_token_pattern p =
     (case eat AT p of
        Inl e \<Rightarrow> Inl e
      | Inr p1 \<Rightarrow>
          (if current_type p1 = Some STRING
           then (case string_matcher p1 of
                   Inl e \<Rightarrow> Inl e
                 | Inr (mention, p2) \<Rightarrow> Inr (AST_MENTION mention, p2))
           else Inr (AST_MENTION AST_None, p1)))"

text \<open>
  \<^verbatim>\<open>concatenated_token_pattern_loop\<close> is the \<^verbatim>\<open>while\<close> loop of
  \<^verbatim>\<open>concatenated_token_pattern\<close>; its loop variable is the list \<^verbatim>\<open>patterns\<close>, to which
  each round appends.
\<close>

function disjunctive_token_pattern :: "parser \<Rightarrow> error + ast \<times> parser"
  and disjunctive_token_pattern_loop :: "ast \<Rightarrow> parser \<Rightarrow> error + ast \<times> parser"
  and concatenated_token_pattern :: "parser \<Rightarrow> error + ast \<times> parser"
  and concatenated_token_pattern_loop :: "ast list \<Rightarrow> parser \<Rightarrow> error + ast list \<times> parser"
  and quantified_token_pattern :: "parser \<Rightarrow> error + ast \<times> parser"
  and atomic_token_pattern :: "parser \<Rightarrow> error + ast \<times> parser"
  and capture_token_pattern :: "parser \<Rightarrow> error + ast \<times> parser"
where
  "disjunctive_token_pattern p =
     (case concatenated_token_pattern p of
        Inl e \<Rightarrow> Inl e
      | Inr (left, p1) \<Rightarrow> disjunctive_token_pattern_loop left p1)"
| "disjunctive_token_pattern_loop left p =
     (if current_type p = Some OR
      then (case eat OR p of
              Inl e \<Rightarrow> Inl e
            | Inr p1 \<Rightarrow>
                (case concatenated_token_pattern p1 of
                   Inl e \<Rightarrow> Inl e
                 | Inr (right, p2) \<Rightarrow> disjunctive_token_pattern_loop (AST_OR left right) p2))
      else Inr (left, p))"
| "concatenated_token_pattern p =
     (case quantified_token_pattern p of
        Inl e \<Rightarrow> Inl e
      | Inr (first, p1) \<Rightarrow>
          (case concatenated_token_pattern_loop [first] p1 of
             Inl e \<Rightarrow> Inl e
           | Inr (patterns, p2) \<Rightarrow>
               Inr (if length patterns = 1 then patterns ! 0 else AST_SEQ patterns, p2)))"
| "concatenated_token_pattern_loop patterns p =
     (if current_type p \<in> {Some WORD, Some LPAREN, Some AT, Some CAPTURE_START, Some LBRACKET}
      then (case quantified_token_pattern p of
              Inl e \<Rightarrow> Inl e
            | Inr (pattern, p1) \<Rightarrow> concatenated_token_pattern_loop (patterns @ [pattern]) p1)
      else Inr (patterns, p))"
| "quantified_token_pattern p =
     (case atomic_token_pattern p of
        Inl e \<Rightarrow> Inl e
      | Inr (atom, p1) \<Rightarrow>
          (case current_token p1 of
             None \<Rightarrow> Inr (atom, p1)
           | Some (token_type, quantifier) \<Rightarrow>
               if token_type \<in> {STAR, PLUS, QUESTION}
               then (case eat token_type p1 of
                       Inl e \<Rightarrow> Inl e
                     | Inr p2 \<Rightarrow> Inr (AST_QUANT atom quantifier, p2))
               else Inr (atom, p1)))"
| "atomic_token_pattern p =
     (if current_type p = Some WORD then field_constraint p
      else if current_type p = Some LBRACKET then token_constraint p
      else if current_type p = Some LPAREN
      then (case eat LPAREN p of
              Inl e \<Rightarrow> Inl e
            | Inr p1 \<Rightarrow>
                (case disjunctive_token_pattern p1 of
                   Inl e \<Rightarrow> Inl e
                 | Inr (pattern, p2) \<Rightarrow>
                     (case eat RPAREN p2 of
                        Inl e \<Rightarrow> Inl e
                      | Inr p3 \<Rightarrow> Inr (pattern, p3))))
      else if current_type p = Some AT then mention_token_pattern p
      else if current_type p = Some CAPTURE_START then capture_token_pattern p
      else Inl (Unexpected_token (map_option snd (current_token p))))"
| "capture_token_pattern p =
     (case eat CAPTURE_START p of
        Inl e \<Rightarrow> Inl e
      | Inr p1 \<Rightarrow>
          (case current_token p1 of
             None \<Rightarrow> Inl TypeError_None
           | Some (_, capture_name) \<Rightarrow>
               (case eat STRING p1 of
                  Inl e \<Rightarrow> Inl e
                | Inr p2 \<Rightarrow>
                    (case eat CAPTURE_END p2 of
                       Inl e \<Rightarrow> Inl e
                     | Inr p3 \<Rightarrow>
                         (case disjunctive_token_pattern p3 of
                            Inl e \<Rightarrow> Inl e
                          | Inr (pattern, p4) \<Rightarrow>
                              Inr (AST_CAPTURE capture_name pattern, p4))))))"
  by pat_completeness auto

lemma mention_token_pattern_remaining:
  "mention_token_pattern p = Inr (a, p') \<Longrightarrow> remaining p' < remaining p"
  by (fastforce simp: mention_token_pattern_def split: sum.splits if_splits
                dest: eat_remaining string_matcher_remaining)

abbreviation "pattern_dom \<equiv> disjunctive_token_pattern_disjunctive_token_pattern_loop_concatenated_token_pattern_concatenated_token_pattern_loop_quantified_token_pattern_atomic_token_pattern_capture_token_pattern_dom"

lemmas pattern_pinduct = disjunctive_token_pattern_disjunctive_token_pattern_loop_concatenated_token_pattern_concatenated_token_pattern_loop_quantified_token_pattern_atomic_token_pattern_capture_token_pattern.pinduct

lemmas pattern_psimps = disjunctive_token_pattern.psimps disjunctive_token_pattern_loop.psimps
  concatenated_token_pattern.psimps concatenated_token_pattern_loop.psimps
  quantified_token_pattern.psimps atomic_token_pattern.psimps capture_token_pattern.psimps


lemma pattern_shrinks_partial:
  "pattern_dom (Inl (Inl p1)) \<Longrightarrow>
     (\<forall>a p'. disjunctive_token_pattern p1 = Inr (a, p') \<longrightarrow> remaining p' < remaining p1)"
  "pattern_dom (Inl (Inr (Inl (l2, p2)))) \<Longrightarrow>
     (\<forall>a p'. disjunctive_token_pattern_loop l2 p2 = Inr (a, p') \<longrightarrow> remaining p' \<le> remaining p2)"
  "pattern_dom (Inl (Inr (Inr p3))) \<Longrightarrow>
     (\<forall>a p'. concatenated_token_pattern p3 = Inr (a, p') \<longrightarrow> remaining p' < remaining p3)"
  "pattern_dom (Inr (Inl (Inl (l4, p4)))) \<Longrightarrow>
     (\<forall>a p'. concatenated_token_pattern_loop l4 p4 = Inr (a, p') \<longrightarrow> remaining p' \<le> remaining p4)"
  "pattern_dom (Inr (Inl (Inr p5))) \<Longrightarrow>
     (\<forall>a p'. quantified_token_pattern p5 = Inr (a, p') \<longrightarrow> remaining p' < remaining p5)"
  "pattern_dom (Inr (Inr (Inl p6))) \<Longrightarrow>
     (\<forall>a p'. atomic_token_pattern p6 = Inr (a, p') \<longrightarrow> remaining p' < remaining p6)"
  "pattern_dom (Inr (Inr (Inr p7))) \<Longrightarrow>
     (\<forall>a p'. capture_token_pattern p7 = Inr (a, p') \<longrightarrow> remaining p' < remaining p7)"
proof (induct rule: pattern_pinduct)
  case (1 p)
  then show ?case
    by (auto simp: pattern_psimps split: sum.splits prod.splits) fastforce
next
  case (2 left p)
  then show ?case
    by (auto simp: pattern_psimps split: sum.splits prod.splits if_splits
             dest: eat_remaining)
       ((fastforce dest: eat_remaining)+)?
next
  case (3 p)
  then show ?case
    by (auto simp: pattern_psimps split: sum.splits prod.splits) fastforce
next
  case (4 patterns p)
  then show ?case
    by (auto simp: pattern_psimps split: sum.splits prod.splits if_splits) (fastforce+)?
next
  case (5 p)
  then show ?case
    by (auto simp: pattern_psimps split: sum.splits prod.splits if_splits option.splits
             dest: eat_remaining)
       ((fastforce dest: eat_remaining)+)?
next
  case (6 p)
  then show ?case
    by (auto simp: pattern_psimps split: sum.splits prod.splits if_splits
             dest: eat_remaining field_constraint_remaining token_constraint_remaining
                   mention_token_pattern_remaining)
       ((fastforce dest: eat_remaining)+)?
next
  case (7 p)
  then show ?case
    by (auto simp: pattern_psimps split: sum.splits prod.splits if_splits option.splits
             dest: eat_remaining)
       ((fastforce dest: eat_remaining)+)?
qed

lemma eat_thrice_remaining:
  "eat t1 p = Inr p1 \<Longrightarrow> eat t2 p1 = Inr p2 \<Longrightarrow> eat t3 p2 = Inr p3 \<Longrightarrow>
   remaining p3 < remaining p"
  by (fastforce dest: eat_remaining)

lemma concatenated_token_pattern_shrinks:
  "pattern_dom (Inl (Inr (Inr p))) \<Longrightarrow> concatenated_token_pattern p = Inr (a, p') \<Longrightarrow>
   remaining p' < remaining p"
  by (simp add: pattern_shrinks_partial(3))

lemma quantified_token_pattern_shrinks:
  "pattern_dom (Inr (Inl (Inr p))) \<Longrightarrow> quantified_token_pattern p = Inr (a, p') \<Longrightarrow>
   remaining p' < remaining p"
  by (simp add: pattern_shrinks_partial(5))

lemma pattern_dom_total: "pattern_dom x"
proof -
  have "All pattern_dom"
  apply (relation "inv_image (measure id <*lex*> measure id)
     (\<lambda>x. case x of
        Inl (Inl p) \<Rightarrow> (remaining p, 6::nat)
      | Inl (Inr (Inl (l, p))) \<Rightarrow> (remaining p, 5)
      | Inl (Inr (Inr p)) \<Rightarrow> (remaining p, 4)
      | Inr (Inl (Inl (l, p))) \<Rightarrow> (remaining p, 3)
      | Inr (Inl (Inr p)) \<Rightarrow> (remaining p, 2)
      | Inr (Inr (Inl p)) \<Rightarrow> (remaining p, 1)
      | Inr (Inr (Inr p)) \<Rightarrow> (remaining p, 0))")
  apply (auto dest!: concatenated_token_pattern_shrinks quantified_token_pattern_shrinks
              dest: eat_remaining eat_thrice_remaining)
  done
  then show ?thesis by simp
qed

termination disjunctive_token_pattern
  by (simp add: pattern_dom_total)

lemmas pattern_remaining = pattern_shrinks_partial[OF pattern_dom_total, rule_format]

declare disjunctive_token_pattern.simps [simp del] disjunctive_token_pattern_loop.simps [simp del]
  concatenated_token_pattern.simps [simp del] concatenated_token_pattern_loop.simps [simp del]
  quantified_token_pattern.simps [simp del] atomic_token_pattern.simps [simp del]
  capture_token_pattern.simps [simp del]

definition parse_token_pattern :: "parser \<Rightarrow> error + ast \<times> parser" where
  "parse_token_pattern p = disjunctive_token_pattern p"

section \<open>The pipeline\<close>

text \<open>
  The module's \<^verbatim>\<open>__main__\<close> block, for any text: \<^verbatim>\<open>lexer = Lexer(text)\<close>, whose constructor
  runs \<^verbatim>\<open>tokenize\<close>; \<^verbatim>\<open>parser = TokenPatternParser(lexer)\<close>;
  \<^verbatim>\<open>result = parser.parse_token_pattern()\<close>. The caller receives the tree; the state the
  parser object is left in is returned beside it, so that the tokens it did not consume
  can be read off.
\<close>

definition parse_text :: "string \<Rightarrow> error + ast \<times> parser" where
  "parse_text text =
     (case tokenize text of
        Inl e \<Rightarrow> Inl e
      | Inr toks \<Rightarrow> parse_token_pattern (TokenPatternParser toks))"

text \<open>What the caller of \<^verbatim>\<open>parse_token_pattern\<close> receives: the tree alone.\<close>

definition parsed_ast :: "string \<Rightarrow> error + ast" where
  "parsed_ast text =
     (case parse_text text of
        Inl e \<Rightarrow> Inl e
      | Inr (result, p) \<Rightarrow> Inr result)"

section \<open>Properties of the lexer\<close>

lemma one_or_more_None_iff:
  "one_or_more cls text pos = None \<longleftrightarrow> (pos < length text \<longrightarrow> \<not> cls (text ! pos))"
proof (cases "drop pos text")
  case Nil
  then show ?thesis by (simp add: one_or_more_def)
next
  case (Cons c rest)
  then have lt: "pos < length text"
    by (cases "pos < length text") auto
  then have "hd (drop pos text) = text ! pos"
    by (simp add: hd_drop_conv_nth)
  with Cons lt show ?thesis by (simp add: one_or_more_def)
qed

lemma is_digit_is_word: "is_digit c \<Longrightarrow> is_word c"
  by (simp add: is_digit_def is_word_def Let_def)

lemma digits_after_word_None:
  "one_or_more is_word text pos = None \<Longrightarrow> one_or_more is_digit text pos = None"
  by (auto simp: one_or_more_None_iff dest: is_digit_is_word)

lemma lit_prefix_None:
  "lit l text pos = None \<Longrightarrow> lit (l @ m) text pos = None"
  by (auto simp: lit_def split: if_splits dest: arg_cong[where f="take (length l)"])

text \<open>
  The token types that no scan can emit: for each of them an earlier rule of the table
  matches wherever its own pattern does.
\<close>

definition unreachable_types :: "token_type set" where
  "unreachable_types = {NUMBER, CAPTURE_START, CAPTURE_END, LOOKAHEAD_START, LOOKAHEAD_END}"

lemma first_match_types:
  "first_match TOKEN_TYPES text pos = Some (ty, e) \<Longrightarrow> ty \<notin> unreachable_types"
  using lit_prefix_None[of "''(''" "text" pos "''?<''"] lit_prefix_None[of "''(''" "text" pos "''?=''"]
    lit_prefix_None[of "''(''" "text" pos "''?!''"]
  by (auto simp: TOKEN_TYPES_def field_names_def unreachable_types_def split: option.splits
           dest: digits_after_word_None)

lemma tokenize_loop_types:
  "tokenize_loop text pos toks = Inr out \<Longrightarrow> \<forall>t\<in>set toks. fst t \<notin> unreachable_types \<Longrightarrow>
   \<forall>t\<in>set out. fst t \<notin> unreachable_types"
proof (induction "text" pos toks rule: tokenize_loop.induct)
  case (1 tx pos tokens)
  show ?case
  proof (cases "pos < length tx")
    case False
    with "1.prems" show ?thesis by (simp add: tokenize_loop.simps[of tx pos tokens])
  next
    case True
    with "1.prems"(1) obtain ty e where
      fm: "first_match TOKEN_TYPES tx pos = Some (ty, e)"
      by (cases "first_match TOKEN_TYPES tx pos")
         (auto simp: tokenize_loop.simps[of tx pos tokens])
    let ?toks = "if ty \<noteq> WHITESPACE
                 then tokens @ [(ty, take (e - pos) (drop pos tx))] else tokens"
    from True fm "1.prems"(1) have run: "tokenize_loop tx e ?toks = Inr out"
      by (simp add: tokenize_loop.simps[of tx pos tokens])
    from first_match_types[OF fm] "1.prems"(2)
    have "\<forall>t\<in>set ?toks. fst t \<notin> unreachable_types" by auto
    from "1.IH"[OF True fm refl run this] show ?thesis .
  qed
qed

lemma tokenize_types:
  "tokenize text = Inr toks \<Longrightarrow> t \<in> set toks \<Longrightarrow> fst t \<notin> unreachable_types"
  using tokenize_loop_types[of "text" 0 "[]" toks] by (simp add: tokenize_def)


lemma digit_run_lexes_as_STRING:
  assumes "pos < length text" "is_digit (text ! pos)"
  shows "first_match TOKEN_TYPES text pos =
           Some (STRING, pos + length (takeWhile is_word (drop pos text)))"
proof -
  let ?c = "text ! pos"
  from assms(1) have d: "drop pos text = ?c # drop (Suc pos) text"
    by (simp add: Cons_nth_drop_Suc)
  from assms(2) have n: "48 \<le> (of_char ?c :: nat)" "(of_char ?c :: nat) \<le> 57"
    by (simp_all add: is_digit_def Let_def)
  have w: "is_word ?c" using assms(2) by (rule is_digit_is_word)
  have ns: "\<not> is_space ?c" using n by (auto simp: is_space_def Let_def)
  have ne: "?c \<noteq> ch" if "(of_char ch :: nat) < 48 \<or> 57 < (of_char ch :: nat)" for ch
    using n that by auto
  have lits: "lit (ch # l) text pos = None"
    if "(of_char ch :: nat) < 48 \<or> 57 < (of_char ch :: nat)" for ch l
    using ne[OF that] d by (auto simp: lit_def)
  have q: "quoted ch text pos = None"
    if "(of_char ch :: nat) < 48 \<or> 57 < (of_char ch :: nat)" for ch
    using ne[OF that] d by (auto simp: quoted_def)
  have sp: "one_or_more is_space text pos = None"
    using ns assms(1) by (simp add: one_or_more_None_iff)
  have wd: "one_or_more is_word text pos =
              Some (pos + length (takeWhile is_word (drop pos text)))"
    using w d by (simp add: one_or_more_def)
  show ?thesis
    by (simp add: TOKEN_TYPES_def field_names_def sp lits q wd)
qed

lemma lit_on_word_run:
  assumes k: "\<forall>c\<in>set k. is_word c"
    and rest: "rest = [] \<or> \<not> is_word (hd rest)"
    and np: "take (length k) w \<noteq> k"
  shows "lit k (pre @ w @ rest) (length pre) = None"
proof (cases "length k \<le> length w")
  case True
  with np show ?thesis by (simp add: lit_def)
next
  case False
  show ?thesis
  proof (cases rest)
    case Nil
    with False np show ?thesis by (auto simp: lit_def)
  next
    case (Cons r rs)
    with rest have nr: "\<not> is_word r" by simp
    have "take (length k) (w @ rest) \<noteq> k"
    proof
      assume eq: "take (length k) (w @ rest) = k"
      from False Cons have "r \<in> set (take (length k) (w @ rest))"
        by (cases "length k - length w") auto
      with eq k nr show False by auto
    qed
    then show ?thesis by (simp add: lit_def)
  qed
qed

lemma lit_other_char:
  "pos < length text \<Longrightarrow> text ! pos \<noteq> ch \<Longrightarrow> lit (ch # l) text pos = None"
  by (auto simp: lit_def dest!: arg_cong[where f=hd] simp: hd_drop_conv_nth)

lemma quoted_other_char:
  "pos < length text \<Longrightarrow> text ! pos \<noteq> q \<Longrightarrow> quoted q text pos = None"
  by (auto simp: quoted_def hd_drop_conv_nth split: list.splits dest!: arg_cong[where f=hd])

lemma is_word_not_space: "is_word c \<Longrightarrow> \<not> is_space c"
  by (auto simp: is_word_def is_space_def Let_def)

lemma word_char_not_punctuation:
  "is_word c \<Longrightarrow> c \<notin> set ''[]()&|!=*+?\"'@:^$''"
  by (auto simp: is_word_def)

lemma field_names_word_chars: "k \<in> set field_names \<Longrightarrow> \<forall>c\<in>set k. is_word c"
  by (auto simp: field_names_def is_word_def)

lemma alt_lits_None:
  "(\<And>k. k \<in> set ks \<Longrightarrow> lit k text pos = None) \<Longrightarrow> alt (map lit ks) text pos = None"
  by (induction ks) auto

lemma bare_word_first_match:
  assumes ne: "w \<noteq> []" and ws: "\<forall>c\<in>set w. is_word c"
    and rest: "rest = [] \<or> \<not> is_word (hd rest)"
    and nk: "\<forall>k\<in>set field_names. take (length k) w \<noteq> k"
  shows "first_match TOKEN_TYPES (pre @ w @ rest) (length pre) =
           Some (STRING, length pre + length w)"
proof -
  let ?t = "pre @ w @ rest" and ?p = "length pre"
  from ne obtain c cs where w: "w = c # cs" by (cases w) auto
  have lt: "?p < length ?t" using w by simp
  have c: "?t ! ?p = c" using w by (simp add: nth_append)
  have wc: "is_word c" using ws w by simp
  have sp: "one_or_more is_space ?t ?p = None"
    using is_word_not_space[OF wc] c lt by (simp add: one_or_more_None_iff)
  have lits: "lit (ch # l) ?t ?p = None" if "ch \<in> set ''[]()&|!=*+?\"'@:^$''" for ch l
    using word_char_not_punctuation[OF wc] that lit_other_char[OF lt, of ch l] c by auto
  have q: "quoted ch ?t ?p = None" if "ch = CHR 0x22 \<or> ch = CHR 0x27" for ch
    using word_char_not_punctuation[OF wc] that quoted_other_char[OF lt, of ch] c by auto
  have kw: "alt (map lit field_names) ?t ?p = None"
    using nk rest by (intro alt_lits_None lit_on_word_run field_names_word_chars) auto
  have tw: "takeWhile is_word (w @ rest) = w"
    using ws rest by (cases rest) (auto simp: takeWhile_append)
  have wd: "one_or_more is_word ?t ?p = Some (?p + length w)"
    using tw ne by (simp add: one_or_more_def)
  show ?thesis
    by (simp add: TOKEN_TYPES_def sp lits q kw wd)
qed

lemma lit_single:
  "pos < length text \<Longrightarrow>
   lit [c] text pos = (if text ! pos = c then Some (Suc pos) else None)"
  by (simp add: lit_def take_Suc hd_drop_conv_nth)

lemma first_match_LPAREN:
  assumes "pos < length text" "text ! pos = CHR ''(''"
  shows "first_match TOKEN_TYPES text pos = Some (LPAREN, Suc pos)"
proof -
  have "\<not> is_space (text ! pos)" using assms(2) by (simp add: is_space_def)
  then have sp: "one_or_more is_space text pos = None"
    using assms(1) by (simp add: one_or_more_None_iff)
  show ?thesis using assms
    by (simp add: TOKEN_TYPES_def sp lit_single)
qed

lemma first_match_QUESTION:
  assumes "pos < length text" "text ! pos = CHR ''?''"
  shows "first_match TOKEN_TYPES text pos = Some (QUESTION, Suc pos)"
proof -
  have "\<not> is_space (text ! pos)" using assms(2) by (simp add: is_space_def)
  then have sp: "one_or_more is_space text pos = None"
    using assms(1) by (simp add: one_or_more_None_iff)
  show ?thesis using assms
    by (simp add: TOKEN_TYPES_def sp lit_single)
qed

lemma first_match_less_than_sign:
  assumes "pos < length text" "text ! pos = CHR ''<''"
  shows "first_match TOKEN_TYPES text pos = None"
proof -
  have c: "\<not> is_space (text ! pos)" "\<not> is_word (text ! pos)" "\<not> is_digit (text ! pos)"
    using assms(2) by (simp_all add: is_space_def is_word_def is_digit_def)
  then have cls: "one_or_more is_space text pos = None" "one_or_more is_word text pos = None"
    "one_or_more is_digit text pos = None"
    using assms(1) by (simp_all add: one_or_more_None_iff)
  have l: "lit (ch # l) text pos = None" if "ch \<noteq> CHR ''<''" for ch l
    using that assms by (intro lit_other_char) auto
  have q: "quoted ch text pos = None" if "ch \<noteq> CHR ''<''" for ch
    using that assms by (intro quoted_other_char) auto
  show ?thesis
    by (simp add: TOKEN_TYPES_def field_names_def cls l q)
qed

lemma capture_opener_fails:
  assumes "pos + 2 < length text" "text ! pos = CHR ''(''" "text ! (pos + 1) = CHR ''?''"
    "text ! (pos + 2) = CHR ''<''"
  shows "tokenize_loop text pos toks = Inl (Unknown_character CHR ''<'')"
proof -
  from assms have a: "first_match TOKEN_TYPES text pos = Some (LPAREN, Suc pos)"
    by (intro first_match_LPAREN) auto
  from assms have b: "first_match TOKEN_TYPES text (Suc pos) = Some (QUESTION, Suc (Suc pos))"
    by (intro first_match_QUESTION) auto
  from assms have c: "first_match TOKEN_TYPES text (Suc (Suc pos)) = None"
    by (intro first_match_less_than_sign) auto
  from assms(1,4) c have "tokenize_loop text (Suc (Suc pos)) ts = Inl (Unknown_character CHR ''<'')"
    for ts by (subst tokenize_loop.simps) simp
  with assms(1) b have "tokenize_loop text (Suc pos) ts = Inl (Unknown_character CHR ''<'')"
    for ts by (subst tokenize_loop.simps) simp
  with assms(1) a show ?thesis by (subst tokenize_loop.simps) simp
qed

text \<open>
  A field keyword at the scan position: the keywords start with different letters, so
  the alternation of the \<^verbatim>\<open>WORD\<close> pattern matches exactly that keyword.
\<close>

lemma lit_matches_itself:
  "lit k (pre @ k @ behind) (length pre) = Some (length pre + length k)"
  by (simp add: lit_def)

lemma alt_lits_distinct_heads:
  "k \<in> set ks \<Longrightarrow> distinct (map hd ks) \<Longrightarrow> [] \<notin> set ks \<Longrightarrow>
   alt (map lit ks) (pre @ k @ behind) (length pre) = Some (length pre + length k)"
proof (induction ks)
  case Nil
  then show ?case by simp
next
  case (Cons k' ks)
  show ?case
  proof (cases "k' = k")
    case True
    then show ?thesis by (simp add: lit_matches_itself)
  next
    case False
    with Cons.prems have in_rest: "k \<in> set ks" by simp
    with Cons.prems have hd_ne: "hd k \<noteq> hd k'" by (auto simp: image_iff)
    from in_rest Cons.prems have "k \<noteq> []" by auto
    then obtain c cs where k: "k = c # cs" by (cases k) auto
    from Cons.prems have "k' \<noteq> []" by auto
    then obtain c' cs' where k': "k' = c' # cs'" by (cases k') auto
    have "lit (c' # cs') (pre @ k @ behind) (length pre) = None"
      using hd_ne k k' by (intro lit_other_char) (simp_all add: nth_append)
    with k' Cons.IH[OF in_rest] Cons.prems show ?thesis by simp
  qed
qed

lemma keyword_alt:
  "k \<in> set field_names \<Longrightarrow>
   alt (map lit field_names) (pre @ k @ behind) (length pre) = Some (length pre + length k)"
  by (rule alt_lits_distinct_heads) (simp_all add: field_names_def)

lemma keyword_first_match:
  assumes "k \<in> set field_names"
  shows "first_match TOKEN_TYPES (pre @ k @ behind) (length pre) =
           Some (WORD, length pre + length k)"
proof -
  let ?t = "pre @ k @ behind" and ?p = "length pre"
  from assms obtain c cs where k: "k = c # cs" by (cases k) (auto simp: field_names_def)
  have lt: "?p < length ?t" using k by simp
  have c: "?t ! ?p = c" using k by (simp add: nth_append)
  have wc: "is_word c" using field_names_word_chars[OF assms] k by simp
  have sp: "one_or_more is_space ?t ?p = None"
    using is_word_not_space[OF wc] c lt by (simp add: one_or_more_None_iff)
  have lits: "lit (ch # l) ?t ?p = None" if "ch \<in> set ''[]()&|!=*+?\"'@:^$''" for ch l
    using word_char_not_punctuation[OF wc] that lit_other_char[OF lt, of ch l] c by auto
  show ?thesis
    by (simp add: TOKEN_TYPES_def sp lits keyword_alt[OF assms])
qed

lemma string_matcher_rejects_WORD:
  "string_matcher \<lparr>tokens = ts, current_token = Some (WORD, l)\<rparr> = Inl Expected_string"
  by (simp add: string_matcher_def current_type_def)

text \<open>
  Text appended behind an opening parenthesis does not change how the text before the
  parenthesis lexes: no rule of the table matches across it, apart from a quoted string,
  and a quoted string that is open where the text ends makes the scan fail.
\<close>

lemma takeWhile_append_stop: "\<not> P y \<Longrightarrow> takeWhile P (xs @ y # ys) = takeWhile P xs"
  by (induction xs) auto

lemma one_or_more_before_paren:
  assumes "\<not> cls CHR ''(''" "pos \<le> length pre"
  shows "one_or_more cls (pre @ CHR ''('' # rest) pos = one_or_more cls pre pos"
  using assms by (simp add: one_or_more_def takeWhile_append_stop)

lemma lit_before_paren:
  assumes "CHR ''('' \<notin> set (tl l)" "pos < length pre"
  shows "lit l (pre @ CHR ''('' # rest) pos = lit l pre pos"
proof (cases "length l \<le> length pre - pos")
  case True
  with assms(2) show ?thesis by (simp add: lit_def)
next
  case False
  let ?xs = "drop pos pre"
  from False have short: "length ?xs < length l" by simp
  have n1: "take (length l) ?xs \<noteq> l"
  proof
    assume "take (length l) ?xs = l"
    then have "length (take (length l) ?xs) = length l" by simp
    with short show False by simp
  qed
  have "take (length l) (?xs @ CHR ''('' # rest) \<noteq> l"
  proof
    assume eq: "take (length l) (?xs @ CHR ''('' # rest) = l"
    from assms(2) have pos: "0 < length ?xs" by simp
    have "l ! length ?xs = take (length l) (?xs @ CHR ''('' # rest) ! length ?xs"
      by (simp only: eq)
    also from short have "\<dots> = (?xs @ CHR ''('' # rest) ! length ?xs"
      by (rule nth_take)
    finally have "l ! length ?xs = CHR ''(''" by (simp add: nth_append)
    moreover from short obtain a t where l: "l = a # t" by (cases l) auto
    ultimately have "t ! (length ?xs - 1) = CHR ''(''" using pos by (simp add: nth_Cons')
    moreover from short l pos have "length ?xs - 1 < length t" by simp
    ultimately have "CHR ''('' \<in> set t" by (metis nth_mem)
    with assms(1) l show False by simp
  qed
  with n1 assms(2) show ?thesis by (simp add: lit_def)
qed

lemma alt_lits_before_paren:
  assumes "\<forall>k\<in>set ks. CHR ''('' \<notin> set (tl k)" "pos < length pre"
  shows "alt (map lit ks) (pre @ CHR ''('' # rest) pos = alt (map lit ks) pre pos"
  using assms by (induction ks) (auto simp: lit_before_paren split: option.splits)

lemma quoted_Some_before_paren:
  assumes "quoted q pre pos = Some e"
  shows "quoted q (pre @ CHR ''('' # rest) pos = Some e"
proof -
  from assms obtain c r where d: "drop pos pre = c # r"
    by (cases "drop pos pre") (auto simp: quoted_def)
  let ?P = "\<lambda>x. x \<noteq> q \<and> x \<noteq> CHR 0x0A"
  let ?body = "takeWhile ?P r"
  from assms d have c: "c = q" and b: "length ?body < length r" and
    h: "r ! length ?body = q" and e: "e = pos + length ?body + 2"
    by (auto simp: quoted_def Let_def split: if_splits)
  from d have lt: "pos < length pre" by (cases "pos < length pre") auto
  from b have "r ! length ?body \<in> set r" by simp
  with h have tw: "takeWhile ?P (r @ CHR ''('' # rest) = ?body"
    by (intro takeWhile_append1[where x = "r ! length ?body"]) auto
  from lt d have d': "drop pos (pre @ CHR ''('' # rest) = c # (r @ CHR ''('' # rest)" by simp
  from b h c e show ?thesis
    by (simp add: quoted_def d' tw nth_append del: drop_append)
qed

lemma first_match_at_quote:
  assumes "pos < length text" "text ! pos = q" "q = CHR 0x22 \<or> q = CHR 0x27"
  shows "first_match TOKEN_TYPES text pos =
           (case quoted q text pos of None \<Rightarrow> None | Some e \<Rightarrow> Some (STRING, e))"
proof -
  have c: "\<not> is_space (text ! pos)" "\<not> is_word (text ! pos)" "\<not> is_digit (text ! pos)"
    using assms(2,3) by (auto simp: is_space_def is_word_def is_digit_def)
  then have cls: "one_or_more is_space text pos = None" "one_or_more is_word text pos = None"
    "one_or_more is_digit text pos = None"
    using assms(1) by (simp_all add: one_or_more_None_iff)
  have l: "lit (ch # l) text pos = None" if "ch \<noteq> CHR 0x22" "ch \<noteq> CHR 0x27" for ch l
    using that assms by (intro lit_other_char) auto
  have q: "quoted ch text pos = None" if "ch \<noteq> q" for ch
    using that assms by (intro quoted_other_char) auto
  from assms(3) show ?thesis
    by (auto simp: TOKEN_TYPES_def field_names_def cls l q split: option.splits)
qed

lemma first_match_before_paren:
  assumes "pos < length pre" "first_match TOKEN_TYPES pre pos = Some (ty, e)"
  shows "first_match TOKEN_TYPES (pre @ CHR ''('' # rest) pos = Some (ty, e)"
proof -
  let ?ext = "pre @ CHR ''('' # rest"
  let ?c = "pre ! pos"
  from assms(1) have lt: "pos < length ?ext" and c: "?ext ! pos = ?c"
    by (simp_all add: nth_append)
  show ?thesis
  proof (cases "?c = CHR 0x22 \<or> ?c = CHR 0x27")
    case True
    from assms(2) first_match_at_quote[OF assms(1) refl True]
    have qp: "quoted ?c pre pos = Some e" and ty: "ty = STRING"
      by (auto split: option.splits)
    from qp have "quoted ?c ?ext pos = Some e" by (rule quoted_Some_before_paren)
    with first_match_at_quote[OF lt c True] ty show ?thesis by simp
  next
    case False
    have np: "\<not> is_space CHR ''(''" "\<not> is_word CHR ''(''" "\<not> is_digit CHR ''(''"
      by (simp_all add: is_space_def is_word_def is_digit_def)
    from assms(1) have le: "pos \<le> length pre" by simp
    have cls: "one_or_more cl ?ext pos = one_or_more cl pre pos"
      if "\<not> cl CHR ''(''" for cl
      using that le by (rule one_or_more_before_paren)
    have l: "lit l ?ext pos = lit l pre pos" if "CHR ''('' \<notin> set (tl l)" for l
      using that assms(1) by (rule lit_before_paren)
    have kw: "alt (map lit field_names) ?ext pos = alt (map lit field_names) pre pos"
      using assms(1) by (intro alt_lits_before_paren) (auto simp: field_names_def)
    have q: "quoted ch ?ext pos = None" "quoted ch pre pos = None"
      if "ch = CHR 0x22 \<or> ch = CHR 0x27" for ch
      using that False quoted_other_char[OF lt, of ch] quoted_other_char[OF assms(1), of ch] c
      by auto
    have "first_match TOKEN_TYPES ?ext pos = first_match TOKEN_TYPES pre pos"
      by (simp add: TOKEN_TYPES_def cls np l kw q cong: option.case_cong)
    with assms(2) show ?thesis by simp
  qed
qed

lemma tokenize_loop_before_paren:
  "tokenize_loop pre pos toks = Inr out \<Longrightarrow> pos \<le> length pre \<Longrightarrow>
   tokenize_loop (pre @ CHR ''('' # rest) pos toks =
     tokenize_loop (pre @ CHR ''('' # rest) (length pre) out"
proof (induction pre pos toks rule: tokenize_loop.induct)
  case (1 tx pos tokens)
  let ?ext = "tx @ CHR ''('' # rest"
  show ?case
  proof (cases "pos < length tx")
    case False
    with "1.prems" have "pos = length tx" "out = tokens"
      by (simp_all add: tokenize_loop.simps[of tx pos tokens])
    then show ?thesis by simp
  next
    case True
    with "1.prems"(1) obtain ty e where
      fm: "first_match TOKEN_TYPES tx pos = Some (ty, e)"
      by (cases "first_match TOKEN_TYPES tx pos")
         (auto simp: tokenize_loop.simps[of tx pos tokens])
    let ?toks = "if ty \<noteq> WHITESPACE
                 then tokens @ [(ty, take (e - pos) (drop pos tx))] else tokens"
    from True fm "1.prems"(1) have run: "tokenize_loop tx e ?toks = Inr out"
      by (simp add: tokenize_loop.simps[of tx pos tokens])
    from first_match_progress[OF fm] have e: "pos < e" "e \<le> length tx" by simp_all
    note ih = "1.IH"[OF True fm refl run e(2)]
    from e have sub: "take (e - pos) (drop pos ?ext) = take (e - pos) (drop pos tx)"
      by simp
    from True have lt: "pos < length ?ext" by simp
    from first_match_before_paren[OF True fm, of rest] lt sub
    have "tokenize_loop ?ext pos tokens = tokenize_loop ?ext e ?toks"
      by (subst tokenize_loop.simps) (simp del: drop_append take_append)
    with ih show ?thesis by simp
  qed
qed

lemma capture_opener_after_tokens:
  assumes "tokenize pre = Inr toks"
  shows "tokenize (pre @ ''(?<'' @ rest) = Inl (Unknown_character CHR ''<'')"
proof -
  let ?t = "pre @ ''(?<'' @ rest"
  from assms tokenize_loop_before_paren[of pre 0 "[]" toks "''?<'' @ rest"]
  have "tokenize ?t = tokenize_loop ?t (length pre) toks"
    by (simp add: tokenize_def)
  moreover have "tokenize_loop ?t (length pre) toks = Inl (Unknown_character CHR ''<'')"
    by (intro capture_opener_fails) (simp_all add: nth_append)
  ultimately show ?thesis by simp
qed

section \<open>Operator chains and collected patterns\<close>

text \<open>
  \<open>operator_chain operand op p xs p'\<close>: from state \<open>p\<close> the token stream continues with
  the operator \<open>op\<close> and an operand, once for each element of \<open>xs\<close>; the operands, as
  the production \<open>operand\<close> parses them, are the elements of \<open>xs\<close> in order; and the
  stream is left in state \<open>p'\<close>, where the next token is not \<open>op\<close>.
\<close>

fun operator_chain ::
  "(parser \<Rightarrow> error + ast \<times> parser) \<Rightarrow> token_type \<Rightarrow> parser \<Rightarrow> ast list \<Rightarrow> parser \<Rightarrow> bool" where
  "operator_chain operand op p [] p' = (p' = p \<and> current_type p \<noteq> Some op)"
| "operator_chain operand op p (x # xs) p' =
     (current_type p = Some op \<and>
      (case eat op p of
         Inl e \<Rightarrow> False
       | Inr p1 \<Rightarrow>
           (case operand p1 of
              Inl e \<Rightarrow> False
            | Inr (y, p2) \<Rightarrow> y = x \<and> operator_chain operand op p2 xs p')))"

text \<open>
  \<open>collected p xs p'\<close>: from state \<open>p\<close> the loop of \<open>concatenated_token_pattern\<close> runs
  once for each element of \<open>xs\<close>, \<open>quantified_token_pattern\<close> returning these elements in
  order, and stops in state \<open>p'\<close>.
\<close>

fun collected :: "parser \<Rightarrow> ast list \<Rightarrow> parser \<Rightarrow> bool" where
  "collected p [] p' =
     (p' = p \<and>
      current_type p \<notin> {Some WORD, Some LPAREN, Some AT, Some CAPTURE_START, Some LBRACKET})"
| "collected p (x # xs) p' =
     (current_type p \<in> {Some WORD, Some LPAREN, Some AT, Some CAPTURE_START, Some LBRACKET} \<and>
      (case quantified_token_pattern p of
         Inl e \<Rightarrow> False
       | Inr (y, p1) \<Rightarrow> y = x \<and> collected p1 xs p'))"

lemma conjunctive_constraint_loop_chain:
  "operator_chain negated_constraint AND p xs p' \<Longrightarrow>
   conjunctive_constraint_loop left p = Inr (foldl AST_AND left xs, p')"
proof (induction xs arbitrary: left p)
  case Nil
  then show ?case by (simp add: conjunctive_constraint_loop.simps[of left p])
next
  case (Cons x xs)
  from Cons.prems obtain p1 p2 where
    c: "current_type p = Some AND" and e: "eat AND p = Inr p1" and
    o: "negated_constraint p1 = Inr (x, p2)" and
    r: "operator_chain negated_constraint AND p2 xs p'"
    by (auto split: sum.splits)
  from Cons.IH[OF r, of "AST_AND left x"] c e o show ?case
    by (simp add: conjunctive_constraint_loop.simps[of left p])
qed

lemma disjunctive_constraint_loop_chain:
  "operator_chain conjunctive_constraint OR p xs p' \<Longrightarrow>
   disjunctive_constraint_loop left p = Inr (foldl AST_OR left xs, p')"
proof (induction xs arbitrary: left p)
  case Nil
  then show ?case by (simp add: disjunctive_constraint_loop.simps[of left p])
next
  case (Cons x xs)
  from Cons.prems obtain p1 p2 where
    c: "current_type p = Some OR" and e: "eat OR p = Inr p1" and
    o: "conjunctive_constraint p1 = Inr (x, p2)" and
    r: "operator_chain conjunctive_constraint OR p2 xs p'"
    by (auto split: sum.splits)
  from Cons.IH[OF r, of "AST_OR left x"] c e o show ?case
    by (simp add: disjunctive_constraint_loop.simps[of left p])
qed

lemma disjunctive_token_pattern_loop_chain:
  "operator_chain concatenated_token_pattern OR p xs p' \<Longrightarrow>
   disjunctive_token_pattern_loop left p = Inr (foldl AST_OR left xs, p')"
proof (induction xs arbitrary: left p)
  case Nil
  then show ?case by (simp add: disjunctive_token_pattern_loop.simps[of left p])
next
  case (Cons x xs)
  from Cons.prems obtain p1 p2 where
    c: "current_type p = Some OR" and e: "eat OR p = Inr p1" and
    o: "concatenated_token_pattern p1 = Inr (x, p2)" and
    r: "operator_chain concatenated_token_pattern OR p2 xs p'"
    by (auto split: sum.splits)
  from Cons.IH[OF r, of "AST_OR left x"] c e o show ?case
    by (simp add: disjunctive_token_pattern_loop.simps[of left p])
qed

lemma concatenated_token_pattern_loop_collected:
  "collected p xs p' \<Longrightarrow>
   concatenated_token_pattern_loop patterns p = Inr (patterns @ xs, p')"
proof (induction xs arbitrary: patterns p)
  case Nil
  then show ?case by (simp add: concatenated_token_pattern_loop.simps[of patterns p])
next
  case (Cons x xs)
  from Cons.prems obtain p1 where
    c: "current_type p \<in> {Some WORD, Some LPAREN, Some AT, Some CAPTURE_START, Some LBRACKET}"
    and q: "quantified_token_pattern p = Inr (x, p1)" and r: "collected p1 xs p'"
    by (auto split: sum.splits)
  from Cons.IH[OF r, of "patterns @ [x]"] c q show ?case
    by (simp add: concatenated_token_pattern_loop.simps[of patterns p])
qed

lemma AST_AND_not_right_nested: "AST_AND (AST_AND a b) c \<noteq> AST_AND a (AST_AND b c)"
proof
  assume "AST_AND (AST_AND a b) c = AST_AND a (AST_AND b c)"
  then have "size (AST_AND a b) = size a" by simp
  then show False by simp
qed

lemma AST_OR_not_right_nested: "AST_OR (AST_OR a b) c \<noteq> AST_OR a (AST_OR b c)"
proof
  assume "AST_OR (AST_OR a b) c = AST_OR a (AST_OR b c)"
  then have "size (AST_OR a b) = size a" by simp
  then show False by simp
qed

section \<open>Trailing tokens\<close>

text \<open>
  A parser state is \<open>well_formed\<close> when it has run out of tokens only together with its
  lexer: \<^verbatim>\<open>current_token\<close> is \<^verbatim>\<open>None\<close> only if the token list is empty. The constructor
  builds such states and \<open>eat\<close> keeps them so.
\<close>

definition well_formed :: "parser \<Rightarrow> bool" where
  "well_formed p = (current_token p = None \<longrightarrow> tokens p = [])"

text \<open>
  \<open>followed_by p ext\<close> is the state \<open>p\<close> of a parser whose lexer holds the further tokens
  \<open>ext\<close> behind those of \<open>p\<close>.
\<close>

definition followed_by :: "parser \<Rightarrow> token list \<Rightarrow> parser" where
  "followed_by p ext =
     (case current_token p of
        None \<Rightarrow> TokenConstraintParser ext
      | Some t \<Rightarrow> p\<lparr>tokens := tokens p @ ext\<rparr>)"

text \<open>
  \<open>unseen S p ext\<close>: if the parser in state \<open>p\<close> is at the end of its tokens, then the
  tokens \<open>ext\<close> do not start with a token whose type is in \<open>S\<close>.
\<close>

definition unseen :: "token_type set \<Rightarrow> parser \<Rightarrow> token list \<Rightarrow> bool" where
  "unseen S p ext = (current_token p = None \<longrightarrow> (case ext of [] \<Rightarrow> True | t # _ \<Rightarrow> fst t \<notin> S))"

lemma well_formed_TokenConstraintParser [simp]: "well_formed (TokenConstraintParser ts)"
  by (cases ts) (simp_all add: well_formed_def TokenConstraintParser_def next_token_def)

lemma followed_by_TokenConstraintParser [simp]:
  "followed_by (TokenConstraintParser ts) ext = TokenConstraintParser (ts @ ext)"
  by (cases ts) (simp_all add: followed_by_def TokenConstraintParser_def next_token_def)

lemma remaining_0_iff: "remaining p = 0 \<longleftrightarrow> current_token p = None"
  by (simp add: remaining_def split: option.splits)

lemma unseen_back:
  "remaining p' \<le> remaining p \<Longrightarrow> unseen S p' ext \<Longrightarrow> unseen S p ext"
  using remaining_0_iff[of p] remaining_0_iff[of p'] by (auto simp: unseen_def)

lemma unseen_mono: "T \<subseteq> S \<Longrightarrow> unseen S p ext \<Longrightarrow> unseen T p ext"
  by (auto simp: unseen_def split: list.splits)

lemma unseen_Some [simp]: "current_token p = Some t \<Longrightarrow> unseen S p ext"
  by (simp add: unseen_def)

lemma current_type_followed_by_Some:
  "current_token p = Some t \<Longrightarrow> current_type (followed_by p ext) = current_type p"
  by (simp add: followed_by_def current_type_def)

lemma current_token_followed_by_Some:
  "current_token p = Some t \<Longrightarrow> current_token (followed_by p ext) = Some t"
  by (simp add: followed_by_def)

text \<open>A lookahead for a type in \<open>S\<close> sees the same with the further tokens behind.\<close>

lemma peek_followed_by:
  "well_formed p \<Longrightarrow> unseen S p ext \<Longrightarrow> T \<in> S \<Longrightarrow>
   current_type (followed_by p ext) = Some T \<longleftrightarrow> current_type p = Some T"
  by (cases "current_token p"; cases ext)
     (auto simp: followed_by_def current_type_def unseen_def TokenConstraintParser_def
                 next_token_def well_formed_def)

lemma eat_followed_by:
  "well_formed p \<Longrightarrow> eat t p = Inr p' \<Longrightarrow>
   well_formed p' \<and> eat t (followed_by p ext) = Inr (followed_by p' ext)"
  by (cases "tokens p"; cases ext)
     (auto simp: eat_def current_type_def followed_by_def next_token_def well_formed_def
                 TokenConstraintParser_def
           split: if_splits option.splits)

lemma eat_current: "eat t p = Inr p' \<Longrightarrow> current_type p = Some t"
  by (simp add: eat_def split: if_splits)

lemma current_type_Some_token: "current_type p = Some t \<Longrightarrow> \<exists>l. current_token p = Some (t, l)"
  by (cases "current_token p") (auto simp: current_type_def)

lemma string_matcher_followed_by:
  assumes "well_formed p" "string_matcher p = Inr (a, p')"
  shows "well_formed p' \<and> string_matcher (followed_by p ext) = Inr (a, followed_by p' ext)"
proof -
  from assms(2) obtain l where c: "current_type p = Some STRING"
    and t: "current_token p = Some (STRING, l)" and e: "eat STRING p = Inr p'"
    and a: "a = AST_EXACT l"
    by (auto simp: string_matcher_def current_type_def split: if_splits option.splits sum.splits)
  from eat_followed_by[OF assms(1) e, of ext] c t a show ?thesis
    by (simp add: string_matcher_def current_type_followed_by_Some[OF t]
                  current_token_followed_by_Some[OF t])
qed

lemma field_constraint_followed_by:
  assumes "well_formed p" "field_constraint p = Inr (a, p')"
  shows "well_formed p' \<and> field_constraint (followed_by p ext) = Inr (a, followed_by p' ext)"
proof -
  from assms(2) obtain ty name p1 p2 m where t: "current_token p = Some (ty, name)"
    and e1: "eat WORD p = Inr p1" and e2: "eat EQUALS p1 = Inr p2"
    and s: "string_matcher p2 = Inr (m, p')" and a: "a = AST_FIELD name m"
    by (auto simp: field_constraint_def split: option.splits sum.splits)
  note x1 = eat_followed_by[OF assms(1) e1, of ext]
  note x2 = eat_followed_by[OF conjunct1[OF x1] e2, of ext]
  note x3 = string_matcher_followed_by[OF conjunct1[OF x2] s, of ext]
  from x1 x2 x3 a show ?thesis
    by (simp add: field_constraint_def current_token_followed_by_Some[OF t])
qed

lemma constraint_followed_by:
  "well_formed p1 \<Longrightarrow> disjunctive_constraint p1 = Inr (a1, q1) \<Longrightarrow> unseen {OR, AND} q1 ext \<Longrightarrow>
     well_formed q1 \<and> disjunctive_constraint (followed_by p1 ext) = Inr (a1, followed_by q1 ext)"
  "well_formed p2 \<Longrightarrow> disjunctive_constraint_loop l2 p2 = Inr (a2, q2) \<Longrightarrow>
   unseen {OR, AND} q2 ext \<Longrightarrow>
     well_formed q2 \<and>
     disjunctive_constraint_loop l2 (followed_by p2 ext) = Inr (a2, followed_by q2 ext)"
  "well_formed p3 \<Longrightarrow> conjunctive_constraint p3 = Inr (a3, q3) \<Longrightarrow> unseen {OR, AND} q3 ext \<Longrightarrow>
     well_formed q3 \<and> conjunctive_constraint (followed_by p3 ext) = Inr (a3, followed_by q3 ext)"
  "well_formed p4 \<Longrightarrow> conjunctive_constraint_loop l4 p4 = Inr (a4, q4) \<Longrightarrow>
   unseen {OR, AND} q4 ext \<Longrightarrow>
     well_formed q4 \<and>
     conjunctive_constraint_loop l4 (followed_by p4 ext) = Inr (a4, followed_by q4 ext)"
  "well_formed p5 \<Longrightarrow> negated_constraint p5 = Inr (a5, q5) \<Longrightarrow> unseen {OR, AND} q5 ext \<Longrightarrow>
     well_formed q5 \<and> negated_constraint (followed_by p5 ext) = Inr (a5, followed_by q5 ext)"
  "well_formed p6 \<Longrightarrow> atomic_constraint p6 = Inr (a6, q6) \<Longrightarrow> unseen {OR, AND} q6 ext \<Longrightarrow>
     well_formed q6 \<and> atomic_constraint (followed_by p6 ext) = Inr (a6, followed_by q6 ext)"
proof (induct p1 and l2 p2 and p3 and l4 p4 and p5 and p6
       arbitrary: a1 q1 and a2 q2 and a3 q3 and a4 q4 and a5 q5 and a6 q6
       rule: constraint_induct)
  case (1 p)
  from "1.prems"(2) obtain left pm where
    c: "conjunctive_constraint p = Inr (left, pm)" and
    l: "disjunctive_constraint_loop left pm = Inr (a1, q1)"
    by (auto simp: disjunctive_constraint.simps[of p] split: sum.splits)
  from unseen_back[OF constraint_remaining(2)[OF l] "1.prems"(3)]
  have u: "unseen {OR, AND} pm ext" .
  note x = "1.hyps"(1)[OF "1.prems"(1) c u]
  note y = "1.hyps"(2)[OF c refl conjunct1[OF x] l "1.prems"(3)]
  from x y show ?case
    by (simp add: disjunctive_constraint.simps[of "followed_by p ext"])
next
  case (2 left p)
  show ?case
  proof (cases "current_type p = Some OR")
    case True
    with "2.prems"(2) obtain pa right pb where
      e: "eat OR p = Inr pa" and c: "conjunctive_constraint pa = Inr (right, pb)" and
      l: "disjunctive_constraint_loop (AST_OR left right) pb = Inr (a2, q2)"
      by (auto simp: disjunctive_constraint_loop.simps[of left p] split: sum.splits)
    from True obtain lx where t: "current_token p = Some (OR, lx)"
      by (auto dest: current_type_Some_token)
    note x = eat_followed_by[OF "2.prems"(1) e, of ext]
    from unseen_back[OF constraint_remaining(2)[OF l] "2.prems"(3)]
    have u: "unseen {OR, AND} pb ext" .
    note y = "2.hyps"(1)[OF True e conjunct1[OF x] c u]
    note z = "2.hyps"(2)[OF True e c refl conjunct1[OF y] l "2.prems"(3)]
    from True x y z show ?thesis
      by (simp add: disjunctive_constraint_loop.simps[of left "followed_by p ext"]
                    current_type_followed_by_Some[OF t])
  next
    case False
    with "2.prems"(2) have eq: "a2 = left" "q2 = p"
      by (simp_all add: disjunctive_constraint_loop.simps[of left p])
    from False peek_followed_by[OF "2.prems"(1), of "{OR, AND}" ext OR] "2.prems"(3) eq
    have "current_type (followed_by p ext) \<noteq> Some OR" by simp
    with eq "2.prems"(1) show ?thesis
      by (simp add: disjunctive_constraint_loop.simps[of left "followed_by p ext"])
  qed
next
  case (3 p)
  from "3.prems"(2) obtain left pm where
    c: "negated_constraint p = Inr (left, pm)" and
    l: "conjunctive_constraint_loop left pm = Inr (a3, q3)"
    by (auto simp: conjunctive_constraint.simps[of p] split: sum.splits)
  from unseen_back[OF constraint_remaining(4)[OF l] "3.prems"(3)]
  have u: "unseen {OR, AND} pm ext" .
  note x = "3.hyps"(1)[OF "3.prems"(1) c u]
  note y = "3.hyps"(2)[OF c refl conjunct1[OF x] l "3.prems"(3)]
  from x y show ?case
    by (simp add: conjunctive_constraint.simps[of "followed_by p ext"])
next
  case (4 left p)
  show ?case
  proof (cases "current_type p = Some AND")
    case True
    with "4.prems"(2) obtain pa right pb where
      e: "eat AND p = Inr pa" and c: "negated_constraint pa = Inr (right, pb)" and
      l: "conjunctive_constraint_loop (AST_AND left right) pb = Inr (a4, q4)"
      by (auto simp: conjunctive_constraint_loop.simps[of left p] split: sum.splits)
    from True obtain lx where t: "current_token p = Some (AND, lx)"
      by (auto dest: current_type_Some_token)
    note x = eat_followed_by[OF "4.prems"(1) e, of ext]
    from unseen_back[OF constraint_remaining(4)[OF l] "4.prems"(3)]
    have u: "unseen {OR, AND} pb ext" .
    note y = "4.hyps"(1)[OF True e conjunct1[OF x] c u]
    note z = "4.hyps"(2)[OF True e c refl conjunct1[OF y] l "4.prems"(3)]
    from True x y z show ?thesis
      by (simp add: conjunctive_constraint_loop.simps[of left "followed_by p ext"]
                    current_type_followed_by_Some[OF t])
  next
    case False
    with "4.prems"(2) have eq: "a4 = left" "q4 = p"
      by (simp_all add: conjunctive_constraint_loop.simps[of left p])
    from False peek_followed_by[OF "4.prems"(1), of "{OR, AND}" ext AND] "4.prems"(3) eq
    have "current_type (followed_by p ext) \<noteq> Some AND" by simp
    with eq "4.prems"(1) show ?thesis
      by (simp add: conjunctive_constraint_loop.simps[of left "followed_by p ext"])
  qed
next
  case (5 p)
  from constraint_remaining(5)[OF "5.prems"(2)] obtain t where t: "current_token p = Some t"
    by (cases "current_token p") (auto simp: remaining_def)
  show ?case
  proof (cases "current_type p = Some NOT")
    case True
    with "5.prems"(2) obtain pa operand where
      e: "eat NOT p = Inr pa" and c: "atomic_constraint pa = Inr (operand, q5)" and
      a: "a5 = AST_NOT operand"
      by (auto simp: negated_constraint.simps[of p] split: sum.splits)
    note x = eat_followed_by[OF "5.prems"(1) e, of ext]
    note y = "5.hyps"(1)[OF True e conjunct1[OF x] c "5.prems"(3)]
    from True x y a show ?thesis
      by (simp add: negated_constraint.simps[of "followed_by p ext"]
                    current_type_followed_by_Some[OF t])
  next
    case False
    with "5.prems"(2) have c: "atomic_constraint p = Inr (a5, q5)"
      by (simp add: negated_constraint.simps[of p])
    note y = "5.hyps"(2)[OF False "5.prems"(1) c "5.prems"(3)]
    from False y show ?thesis
      by (simp add: negated_constraint.simps[of "followed_by p ext"]
                    current_type_followed_by_Some[OF t])
  qed
next
  case (6 p)
  from constraint_remaining(6)[OF "6.prems"(2)] obtain t where t: "current_token p = Some t"
    by (cases "current_token p") (auto simp: remaining_def)
  show ?case
  proof (cases "current_type p = Some WORD")
    case True
    with "6.prems"(2) have f: "field_constraint p = Inr (a6, q6)"
      by (simp add: atomic_constraint.simps[of p])
    from field_constraint_followed_by[OF "6.prems"(1) f, of ext] True show ?thesis
      by (simp add: atomic_constraint.simps[of "followed_by p ext"]
                    current_type_followed_by_Some[OF t])
  next
    case False
    show ?thesis
    proof (cases "current_type p = Some LPAREN")
      case True
      with False "6.prems"(2) obtain pa pb where
        e: "eat LPAREN p = Inr pa" and c: "disjunctive_constraint pa = Inr (a6, pb)" and
        r: "eat RPAREN pb = Inr q6"
        by (auto simp: atomic_constraint.simps[of p] split: sum.splits)
      from eat_current[OF r] obtain lx where "current_token pb = Some (RPAREN, lx)"
        by (auto dest: current_type_Some_token)
      then have u: "unseen {OR, AND} pb ext" by simp
      note x = eat_followed_by[OF "6.prems"(1) e, of ext]
      note y = "6.hyps"[OF False True e conjunct1[OF x] c u]
      note z = eat_followed_by[OF conjunct1[OF y] r, of ext]
      from False True x y z show ?thesis
        by (simp add: atomic_constraint.simps[of "followed_by p ext"]
                      current_type_followed_by_Some[OF t])
    next
      case F2: False
      with False "6.prems"(2) show ?thesis
        by (simp add: atomic_constraint.simps[of p])
    qed
  qed
qed

lemma token_constraint_followed_by:
  assumes "well_formed p" "token_constraint p = Inr (a, p')"
  shows "well_formed p' \<and> token_constraint (followed_by p ext) = Inr (a, followed_by p' ext)"
proof -
  from assms(2) obtain p1 p2 where e: "eat LBRACKET p = Inr p1" and
    m: "(if current_token p1 \<noteq> None \<and> current_type p1 \<noteq> Some RBRACKET
         then disjunctive_constraint p1 else Inr (AST_None, p1)) = Inr (a, p2)" and
    r: "eat RBRACKET p2 = Inr p'"
    by (auto simp: token_constraint_def split: sum.splits)
  from eat_current[OF r] obtain lx where t2: "current_token p2 = Some (RBRACKET, lx)"
    by (auto dest: current_type_Some_token)
  note x = eat_followed_by[OF assms(1) e, of ext]
  have t1: "current_token p1 \<noteq> None"
  proof
    assume n: "current_token p1 = None"
    with m have "p2 = p1" by simp
    with n t2 show False by simp
  qed
  then obtain t where t1': "current_token p1 = Some t" by auto
  have "well_formed p2 \<and>
        (if current_token (followed_by p1 ext) \<noteq> None \<and>
            current_type (followed_by p1 ext) \<noteq> Some RBRACKET
         then disjunctive_constraint (followed_by p1 ext)
         else Inr (AST_None, followed_by p1 ext)) = Inr (a, followed_by p2 ext)"
  proof (cases "current_type p1 \<noteq> Some RBRACKET")
    case True
    with m t1 have d: "disjunctive_constraint p1 = Inr (a, p2)" by simp
    from t2 have u: "unseen {OR, AND} p2 ext" by simp
    from constraint_followed_by(1)[OF conjunct1[OF x] d u] True t1' show ?thesis
      by (simp add: current_type_followed_by_Some[OF t1']
                    current_token_followed_by_Some[OF t1'])
  next
    case False
    with m have "a = AST_None" "p2 = p1" by simp_all
    with False x t1' show ?thesis
      by (simp add: current_type_followed_by_Some[OF t1'])
  qed
  moreover from this eat_followed_by[OF _ r, of ext]
  have "well_formed p' \<and> eat RBRACKET (followed_by p2 ext) = Inr (followed_by p' ext)" by simp
  ultimately show ?thesis using x
    by (simp add: token_constraint_def)
qed

text \<open>
  The token types the pattern parser looks ahead for once a pattern is complete: the
  alternation bar, the tokens that start a further pattern of a concatenation, the
  quantifiers, and the string that names a mention.
\<close>

definition continuing :: "token_type set" where
  "continuing = {OR, WORD, LPAREN, AT, CAPTURE_START, LBRACKET, STAR, PLUS, QUESTION, STRING}"

lemma peek_set_followed_by:
  assumes "well_formed p" "unseen S p ext" "A \<subseteq> Some ` S"
  shows "current_type (followed_by p ext) \<in> A \<longleftrightarrow> current_type p \<in> A"
proof (cases "current_token p")
  case (Some t)
  then show ?thesis by (simp add: current_type_followed_by_Some)
next
  case None
  with assms(3) have a: "current_type p \<notin> A" by (auto simp: current_type_def)
  from None assms(2,3) have "current_type (followed_by p ext) \<notin> A"
    by (cases ext)
       (auto simp: followed_by_def unseen_def current_type_def TokenConstraintParser_def
                   next_token_def)
  with a show ?thesis by simp
qed

lemma mention_token_pattern_followed_by:
  assumes "well_formed p" "mention_token_pattern p = Inr (a, p')" "unseen {STRING} p' ext"
  shows "well_formed p' \<and>
         mention_token_pattern (followed_by p ext) = Inr (a, followed_by p' ext)"
proof -
  from assms(2) obtain p1 where e: "eat AT p = Inr p1" and
    m: "(if current_type p1 = Some STRING
         then (case string_matcher p1 of Inl e \<Rightarrow> Inl e
               | Inr (mention, p2) \<Rightarrow> Inr (AST_MENTION mention, p2))
         else Inr (AST_MENTION AST_None, p1)) = Inr (a, p')"
    by (auto simp: mention_token_pattern_def split: sum.splits)
  note x = eat_followed_by[OF assms(1) e, of ext]
  show ?thesis
  proof (cases "current_type p1 = Some STRING")
    case True
    with m obtain mention where s: "string_matcher p1 = Inr (mention, p')"
      and a: "a = AST_MENTION mention"
      by (auto split: sum.splits)
    from True obtain lx where t: "current_token p1 = Some (STRING, lx)"
      by (auto dest: current_type_Some_token)
    from string_matcher_followed_by[OF conjunct1[OF x] s, of ext] x True a show ?thesis
      by (simp add: mention_token_pattern_def current_type_followed_by_Some[OF t])
  next
    case False
    with m have eq: "a = AST_MENTION AST_None" "p' = p1" by simp_all
    from False peek_followed_by[OF conjunct1[OF x], of "{STRING}" ext STRING] assms(3) eq
    have "current_type (followed_by p1 ext) \<noteq> Some STRING" by simp
    with x eq show ?thesis
      by (simp add: mention_token_pattern_def)
  qed
qed

lemma started: "remaining p' < remaining p \<Longrightarrow> \<exists>t. current_token p = Some t"
  by (cases "current_token p") (auto simp: remaining_def)

lemma pattern_followed_by:
  "well_formed p1 \<Longrightarrow> disjunctive_token_pattern p1 = Inr (a1, q1) \<Longrightarrow>
   unseen continuing q1 ext \<Longrightarrow>
     well_formed q1 \<and>
     disjunctive_token_pattern (followed_by p1 ext) = Inr (a1, followed_by q1 ext)"
  "well_formed p2 \<Longrightarrow> disjunctive_token_pattern_loop l2 p2 = Inr (a2, q2) \<Longrightarrow>
   unseen continuing q2 ext \<Longrightarrow>
     well_formed q2 \<and>
     disjunctive_token_pattern_loop l2 (followed_by p2 ext) = Inr (a2, followed_by q2 ext)"
  "well_formed p3 \<Longrightarrow> concatenated_token_pattern p3 = Inr (a3, q3) \<Longrightarrow>
   unseen continuing q3 ext \<Longrightarrow>
     well_formed q3 \<and>
     concatenated_token_pattern (followed_by p3 ext) = Inr (a3, followed_by q3 ext)"
  "well_formed p4 \<Longrightarrow> concatenated_token_pattern_loop l4 p4 = Inr (a4, q4) \<Longrightarrow>
   unseen continuing q4 ext \<Longrightarrow>
     well_formed q4 \<and>
     concatenated_token_pattern_loop l4 (followed_by p4 ext) = Inr (a4, followed_by q4 ext)"
  "well_formed p5 \<Longrightarrow> quantified_token_pattern p5 = Inr (a5, q5) \<Longrightarrow>
   unseen continuing q5 ext \<Longrightarrow>
     well_formed q5 \<and>
     quantified_token_pattern (followed_by p5 ext) = Inr (a5, followed_by q5 ext)"
  "well_formed p6 \<Longrightarrow> atomic_token_pattern p6 = Inr (a6, q6) \<Longrightarrow>
   unseen continuing q6 ext \<Longrightarrow>
     well_formed q6 \<and>
     atomic_token_pattern (followed_by p6 ext) = Inr (a6, followed_by q6 ext)"
  "well_formed p7 \<Longrightarrow> capture_token_pattern p7 = Inr (a7, q7) \<Longrightarrow>
   unseen continuing q7 ext \<Longrightarrow>
     well_formed q7 \<and>
     capture_token_pattern (followed_by p7 ext) = Inr (a7, followed_by q7 ext)"
proof (induct p1 and l2 p2 and p3 and l4 p4 and p5 and p6 and p7
       arbitrary: a1 q1 and a2 q2 and a3 q3 and a4 q4 and a5 q5 and a6 q6 and a7 q7
       rule: disjunctive_token_pattern_disjunctive_token_pattern_loop_concatenated_token_pattern_concatenated_token_pattern_loop_quantified_token_pattern_atomic_token_pattern_capture_token_pattern.induct)
  case (1 p)
  from "1.prems"(2) obtain left pm where
    c: "concatenated_token_pattern p = Inr (left, pm)" and
    l: "disjunctive_token_pattern_loop left pm = Inr (a1, q1)"
    by (auto simp: disjunctive_token_pattern.simps[of p] split: sum.splits)
  from unseen_back[OF pattern_remaining(2)[OF l] "1.prems"(3)]
  have u: "unseen continuing pm ext" .
  note x = "1.hyps"(1)[OF "1.prems"(1) c u]
  note y = "1.hyps"(2)[OF c refl conjunct1[OF x] l "1.prems"(3)]
  from x y show ?case
    by (simp add: disjunctive_token_pattern.simps[of "followed_by p ext"])
next
  case (2 left p)
  show ?case
  proof (cases "current_type p = Some OR")
    case True
    with "2.prems"(2) obtain pa right pb where
      e: "eat OR p = Inr pa" and c: "concatenated_token_pattern pa = Inr (right, pb)" and
      l: "disjunctive_token_pattern_loop (AST_OR left right) pb = Inr (a2, q2)"
      by (auto simp: disjunctive_token_pattern_loop.simps[of left p] split: sum.splits)
    from True obtain lx where t: "current_token p = Some (OR, lx)"
      by (auto dest: current_type_Some_token)
    note x = eat_followed_by[OF "2.prems"(1) e, of ext]
    from unseen_back[OF pattern_remaining(2)[OF l] "2.prems"(3)]
    have u: "unseen continuing pb ext" .
    note y = "2.hyps"(1)[OF True e conjunct1[OF x] c u]
    note z = "2.hyps"(2)[OF True e c refl conjunct1[OF y] l "2.prems"(3)]
    from True x y z show ?thesis
      by (simp add: disjunctive_token_pattern_loop.simps[of left "followed_by p ext"]
                    current_type_followed_by_Some[OF t])
  next
    case False
    with "2.prems"(2) have eq: "a2 = left" "q2 = p"
      by (simp_all add: disjunctive_token_pattern_loop.simps[of left p])
    from False peek_followed_by[OF "2.prems"(1), of continuing ext OR] "2.prems"(3) eq
    have "current_type (followed_by p ext) \<noteq> Some OR" by (simp add: continuing_def)
    with eq "2.prems"(1) show ?thesis
      by (simp add: disjunctive_token_pattern_loop.simps[of left "followed_by p ext"])
  qed
next
  case (3 p)
  from "3.prems"(2) obtain first pm patterns where
    c: "quantified_token_pattern p = Inr (first, pm)" and
    l: "concatenated_token_pattern_loop [first] pm = Inr (patterns, q3)" and
    a: "a3 = (if length patterns = 1 then patterns ! 0 else AST_SEQ patterns)"
    by (auto simp: concatenated_token_pattern.simps[of p] split: sum.splits)
  from unseen_back[OF pattern_remaining(4)[OF l] "3.prems"(3)]
  have u: "unseen continuing pm ext" .
  note x = "3.hyps"(1)[OF "3.prems"(1) c u]
  note y = "3.hyps"(2)[OF c refl conjunct1[OF x] l "3.prems"(3)]
  from x y a show ?case
    by (simp add: concatenated_token_pattern.simps[of "followed_by p ext"])
next
  case (4 patterns p)
  let ?starts = "{Some WORD, Some LPAREN, Some AT, Some CAPTURE_START, Some LBRACKET}"
  show ?case
  proof (cases "current_type p \<in> ?starts")
    case True
    with "4.prems"(2) obtain pattern pa where
      c: "quantified_token_pattern p = Inr (pattern, pa)" and
      l: "concatenated_token_pattern_loop (patterns @ [pattern]) pa = Inr (a4, q4)"
      by (auto simp: concatenated_token_pattern_loop.simps[of patterns p] split: sum.splits)
    from started[OF pattern_remaining(5)[OF c]] obtain t where t: "current_token p = Some t"
      by auto
    from unseen_back[OF pattern_remaining(4)[OF l] "4.prems"(3)]
    have u: "unseen continuing pa ext" .
    note x = "4.hyps"(1)[OF True "4.prems"(1) c u]
    note y = "4.hyps"(2)[OF True c refl conjunct1[OF x] l "4.prems"(3)]
    from True x y show ?thesis
      by (simp add: concatenated_token_pattern_loop.simps[of patterns "followed_by p ext"]
                    current_type_followed_by_Some[OF t])
  next
    case False
    with "4.prems"(2) have eq: "a4 = patterns" "q4 = p"
      by (simp_all add: concatenated_token_pattern_loop.simps[of patterns p])
    from False peek_set_followed_by[OF "4.prems"(1), of continuing ext ?starts] "4.prems"(3) eq
    have "current_type (followed_by p ext) \<notin> ?starts" by (simp add: continuing_def)
    with eq "4.prems"(1) show ?thesis
      by (simp add: concatenated_token_pattern_loop.simps[of patterns "followed_by p ext"])
  qed
next
  case (5 p)
  from "5.prems"(2) obtain atom pa where
    c: "atomic_token_pattern p = Inr (atom, pa)" and
    r: "(case current_token pa of
           None \<Rightarrow> Inr (atom, pa)
         | Some (token_type, quantifier) \<Rightarrow>
             if token_type \<in> {STAR, PLUS, QUESTION}
             then (case eat token_type pa of
                     Inl e \<Rightarrow> Inl e
                   | Inr p2 \<Rightarrow> Inr (AST_QUANT atom quantifier, p2))
             else Inr (atom, pa)) = Inr (a5, q5)"
    by (auto simp: quantified_token_pattern.simps[of p] split: sum.splits)
  show ?case
  proof (cases "current_token pa")
    case None
    with r have eq: "a5 = atom" "q5 = pa" by simp_all
    note x = "5.hyps"[OF "5.prems"(1) c "5.prems"(3)[unfolded eq]]
    from None "5.prems"(3) eq
    have "(case current_token (followed_by pa ext) of
           None \<Rightarrow> Inr (atom, followed_by pa ext)
         | Some (token_type, quantifier) \<Rightarrow>
             if token_type \<in> {STAR, PLUS, QUESTION}
             then (case eat token_type (followed_by pa ext) of
                     Inl e \<Rightarrow> Inl e
                   | Inr p2 \<Rightarrow> Inr (AST_QUANT atom quantifier, p2))
             else Inr (atom, followed_by pa ext)) = Inr (atom, followed_by pa ext)"
      by (cases ext)
         (auto simp: followed_by_def unseen_def TokenConstraintParser_def next_token_def
                     continuing_def)
    with x eq show ?thesis
      by (simp add: quantified_token_pattern.simps[of "followed_by p ext"])
  next
    case (Some t)
    then obtain ty quantifier where t: "current_token pa = Some (ty, quantifier)"
      by (cases t) auto
    then have u: "unseen continuing pa ext" by simp
    note x = "5.hyps"[OF "5.prems"(1) c u]
    show ?thesis
    proof (cases "ty \<in> {STAR, PLUS, QUESTION}")
      case True
      with r t have e: "eat ty pa = Inr q5" and a: "a5 = AST_QUANT atom quantifier"
        by (auto split: sum.splits)
      from eat_followed_by[OF conjunct1[OF x] e, of ext] x True a show ?thesis
        by (simp add: quantified_token_pattern.simps[of "followed_by p ext"]
                      current_token_followed_by_Some[OF t])
    next
      case False
      with r t have eq: "a5 = atom" "q5 = pa" by simp_all
      with x False show ?thesis
        by (simp add: quantified_token_pattern.simps[of "followed_by p ext"]
                      current_token_followed_by_Some[OF t])
    qed
  qed
next
  case (6 p)
  from started[OF pattern_remaining(6)[OF "6.prems"(2)]] obtain t where
    t: "current_token p = Some t" by auto
  note ct = current_type_followed_by_Some[OF t]
  show ?case
  proof (cases "current_type p = Some WORD")
    case True
    with "6.prems"(2) have f: "field_constraint p = Inr (a6, q6)"
      by (simp add: atomic_token_pattern.simps[of p])
    from field_constraint_followed_by[OF "6.prems"(1) f, of ext] True show ?thesis
      by (simp add: atomic_token_pattern.simps[of "followed_by p ext"] ct)
  next
    case nw: False
    show ?thesis
    proof (cases "current_type p = Some LBRACKET")
      case True
      with nw "6.prems"(2) have f: "token_constraint p = Inr (a6, q6)"
        by (simp add: atomic_token_pattern.simps[of p])
      from token_constraint_followed_by[OF "6.prems"(1) f, of ext] True show ?thesis
        by (simp add: atomic_token_pattern.simps[of "followed_by p ext"] ct)
    next
      case nb: False
      show ?thesis
      proof (cases "current_type p = Some LPAREN")
        case True
        with nw nb "6.prems"(2) obtain pa pb where
          e: "eat LPAREN p = Inr pa" and c: "disjunctive_token_pattern pa = Inr (a6, pb)" and
          r: "eat RPAREN pb = Inr q6"
          by (auto simp: atomic_token_pattern.simps[of p] split: sum.splits)
        from eat_current[OF r] obtain lx where "current_token pb = Some (RPAREN, lx)"
          by (auto dest: current_type_Some_token)
        then have u: "unseen continuing pb ext" by simp
        note x = eat_followed_by[OF "6.prems"(1) e, of ext]
        note y = "6.hyps"(1)[OF nw nb True e conjunct1[OF x] c u]
        note z = eat_followed_by[OF conjunct1[OF y] r, of ext]
        from nw nb True x y z show ?thesis
          by (simp add: atomic_token_pattern.simps[of "followed_by p ext"] ct)
      next
        case np: False
        show ?thesis
        proof (cases "current_type p = Some AT")
          case True
          with nw nb np "6.prems"(2) have f: "mention_token_pattern p = Inr (a6, q6)"
            by (simp add: atomic_token_pattern.simps[of p])
          from "6.prems"(3) have u: "unseen {STRING} q6 ext"
            by (rule unseen_mono[rotated]) (simp add: continuing_def)
          from mention_token_pattern_followed_by[OF "6.prems"(1) f u] nw nb np True
          show ?thesis
            by (simp add: atomic_token_pattern.simps[of "followed_by p ext"] ct)
        next
          case na: False
          show ?thesis
          proof (cases "current_type p = Some CAPTURE_START")
            case True
            with nw nb np na "6.prems"(2) have f: "capture_token_pattern p = Inr (a6, q6)"
              by (simp add: atomic_token_pattern.simps[of p])
            from "6.hyps"(2)[OF nw nb np na True "6.prems"(1) f "6.prems"(3)]
              nw nb np na True
            show ?thesis
              by (simp add: atomic_token_pattern.simps[of "followed_by p ext"] ct)
          next
            case False
            with nw nb np na "6.prems"(2) show ?thesis
              by (simp add: atomic_token_pattern.simps[of p])
          qed
        qed
      qed
    qed
  qed
next
  case (7 p)
  from "7.prems"(2) obtain pa ty capture_name pb pc pattern where
    e1: "eat CAPTURE_START p = Inr pa" and t: "current_token pa = Some (ty, capture_name)" and
    e2: "eat STRING pa = Inr pb" and e3: "eat CAPTURE_END pb = Inr pc" and
    d: "disjunctive_token_pattern pc = Inr (pattern, q7)" and
    a: "a7 = AST_CAPTURE capture_name pattern"
    by (auto simp: capture_token_pattern.simps[of p] split: sum.splits option.splits)
  note x1 = eat_followed_by[OF "7.prems"(1) e1, of ext]
  note x2 = eat_followed_by[OF conjunct1[OF x1] e2, of ext]
  note x3 = eat_followed_by[OF conjunct1[OF x2] e3, of ext]
  note y = "7.hyps"[OF e1 t refl e2 e3 conjunct1[OF x3] d "7.prems"(3)]
  from x1 x2 x3 y a show ?case
    by (simp add: capture_token_pattern.simps[of "followed_by p ext"]
                  current_token_followed_by_Some[OF t])
qed

section \<open>The claims\<close>

text \<open>
  Claim C10. For every input text, the token list that \<open>tokenize\<close> returns holds no
  \<open>NUMBER\<close> token; and wherever the scan stands on a digit, the rule that matches first
  is \<open>STRING\<close>, through its bare-word alternative \<^verbatim>\<open>\w+\<close>, which takes the whole run of
  word characters.
\<close>

theorem C10_no_NUMBER_token:
  "(tokenize text = Inr toks \<longrightarrow> (\<forall>t\<in>set toks. fst t \<noteq> NUMBER)) \<and>
   (pos < length text \<and> is_digit (text ! pos) \<longrightarrow>
      first_match TOKEN_TYPES text pos =
        Some (STRING, pos + length (takeWhile is_word (drop pos text))))"
proof (intro conjI impI ballI)
  fix t assume "tokenize text = Inr toks" "t \<in> set toks"
  from tokenize_types[OF this] show "fst t \<noteq> NUMBER"
    by (auto simp: unreachable_types_def)
next
  assume "pos < length text \<and> is_digit (text ! pos)"
  then show "first_match TOKEN_TYPES text pos =
        Some (STRING, pos + length (takeWhile is_word (drop pos text)))"
    by (simp add: digit_run_lexes_as_STRING)
qed

text \<open>
  Claim C10, witness: the text \<^verbatim>\<open>[word=42]\<close> lexes, its digit run at position 6 is one
  \<open>STRING\<close> token, and no token is a \<open>NUMBER\<close>.
\<close>

theorem C10_witness:
  "tokenize ''[word=42]'' =
     Inr [(LBRACKET, ''[''), (WORD, ''word''), (EQUALS, ''=''), (STRING, ''42''), (RBRACKET, '']'')] \<and>
   NUMBER \<notin> set (map fst [(LBRACKET, ''[''), (WORD, ''word''), (EQUALS, ''=''), (STRING, ''42''),
                            (RBRACKET, '']'')]) \<and>
   (6::nat) < length ''[word=42]'' \<and> is_digit (''[word=42]'' ! 6) \<and>
   first_match TOKEN_TYPES ''[word=42]'' 6 = Some (STRING, 8)"
proof -
  have lex: "tokenize ''[word=42]'' =
     Inr [(LBRACKET, ''[''), (WORD, ''word''), (EQUALS, ''=''), (STRING, ''42''), (RBRACKET, '']'')]"
    by code_simp
  have dig: "(6::nat) < length ''[word=42]'' \<and> is_digit (''[word=42]'' ! 6)"
    by code_simp
  have len: "6 + length (takeWhile is_word (drop 6 ''[word=42]'')) = 8"
    by code_simp
  from C10_no_NUMBER_token[of "''[word=42]''" _ 6] lex dig len
  show ?thesis by simp
qed

text \<open>
  Claim C2, as stated, fails: the tree for \<^verbatim>\<open>[word="hello" & lemma="greet"]\<close> is not the
  one whose literals are \<^verbatim>\<open>hello\<close> and \<^verbatim>\<open>greet\<close> without quote characters.
\<close>

theorem C2_counterexample:
  "parsed_ast ''[word=\"hello\" & lemma=\"greet\"]'' \<noteq>
     Inr (AST_AND (AST_FIELD ''word'' (AST_EXACT ''hello''))
                  (AST_FIELD ''lemma'' (AST_EXACT ''greet'')))"
  by code_simp

text \<open>
  Claim C2, amended. Parsing \<^verbatim>\<open>[word="hello" & lemma="greet"]\<close> succeeds and yields
  \<open>AND (FIELD word (EXACT l1)) (FIELD lemma (EXACT l2))\<close>, where each literal is the lexeme
  of the string token as matched, the surrounding double quotes included: \<open>string_matcher\<close>
  stores \<^verbatim>\<open>current_token[1]\<close>, which is \<^verbatim>\<open>match.group()\<close>, and nothing strips the quotes.
\<close>

theorem C2_literals_keep_quotes:
  "parsed_ast ''[word=\"hello\" & lemma=\"greet\"]'' =
     Inr (AST_AND (AST_FIELD ''word'' (AST_EXACT ''\"hello\"''))
                  (AST_FIELD ''lemma'' (AST_EXACT ''\"greet\"'')))"
  by code_simp

text \<open>
  Claim C4, as stated, fails: the error carries the offending character only. The texts
  \<^verbatim>\<open>%\<close> and \<^verbatim>\<open>[%\<close> have no matching rule at positions 0 and 1 respectively, and
  \<open>tokenize\<close> fails on both with the same error value, so the position cannot be read
  from it.
\<close>

theorem C4_counterexample:
  "first_match TOKEN_TYPES ''%'' 0 = None \<and> first_match TOKEN_TYPES ''[%'' 1 = None \<and>
   tokenize ''%'' = Inl (Unknown_character CHR ''%'') \<and>
   tokenize ''[%'' = Inl (Unknown_character CHR ''%'')"
  by code_simp

text \<open>
  Claim C4, amended. For every text and scan position inside it at which no rule of the
  table matches, the scan loop fails, whatever tokens it has collected, with the error
  that names the character at that position (and nothing else).
\<close>

theorem C4_lex_error_names_character:
  "pos < length text \<Longrightarrow> first_match TOKEN_TYPES text pos = None \<Longrightarrow>
   tokenize_loop text pos toks = Inl (Unknown_character (text ! pos))"
  by (simp add: tokenize_loop.simps[of "text" pos toks])

text \<open>Claim C4, witness: the scan of \<^verbatim>\<open>[%\<close> at position 1, after the bracket token.\<close>

theorem C4_witness:
  "(1::nat) < length ''[%'' \<and> first_match TOKEN_TYPES ''[%'' 1 = None \<and>
   tokenize_loop ''[%'' 1 [(LBRACKET, ''['')] = Inl (Unknown_character CHR ''%'')"
proof -
  have a: "(1::nat) < length ''[%''" by simp
  have b: "first_match TOKEN_TYPES ''[%'' 1 = None" by code_simp
  from C4_lex_error_names_character[OF a b, of "[(LBRACKET, ''['')]"] a b
  show ?thesis by simp
qed

text \<open>
  Claim C5. Wherever a token stream continues with \<^verbatim>\<open>[\<close> \<^verbatim>\<open>]\<close>, \<open>token_constraint\<close>
  returns \<open>AST_None\<close> (Python's \<^verbatim>\<open>None\<close>, the node the specification calls NoConstraint)
  and leaves the parser on the token after the closing bracket; so does
  \<open>atomic_token_pattern\<close>, through which every bracket inside a larger pattern is parsed;
  and the text \<^verbatim>\<open>[]\<close> as a whole parses to \<open>AST_None\<close>.
\<close>

theorem C5_empty_bracket_is_None:
  "token_constraint \<lparr>tokens = (RBRACKET, r) # rest, current_token = Some (LBRACKET, l)\<rparr> =
     Inr (AST_None, TokenConstraintParser rest) \<and>
   atomic_token_pattern \<lparr>tokens = (RBRACKET, r) # rest, current_token = Some (LBRACKET, l)\<rparr> =
     Inr (AST_None, TokenConstraintParser rest) \<and>
   parsed_ast ''[]'' = Inr AST_None"
proof -
  have tc: "token_constraint \<lparr>tokens = (RBRACKET, r) # rest, current_token = Some (LBRACKET, l)\<rparr> =
     Inr (AST_None, TokenConstraintParser rest)"
    by (simp add: token_constraint_def eat_def current_type_def next_token_def
                  TokenConstraintParser_def split: list.splits)
  have "atomic_token_pattern \<lparr>tokens = (RBRACKET, r) # rest, current_token = Some (LBRACKET, l)\<rparr> =
     token_constraint \<lparr>tokens = (RBRACKET, r) # rest, current_token = Some (LBRACKET, l)\<rparr>"
    by (simp add: atomic_token_pattern.simps current_type_def)
  moreover have "parsed_ast ''[]'' = Inr AST_None" by code_simp
  ultimately show ?thesis using tc by simp
qed

text \<open>
  Claim C6, as stated, fails: the bare word \<^verbatim>\<open>mention\<close> lexes as a \<open>WORD\<close> token, the
  bare word \<^verbatim>\<open>wordy\<close> as the \<open>WORD\<close> token \<^verbatim>\<open>word\<close> followed by the \<open>STRING\<close> token
  \<^verbatim>\<open>y\<close>, and \<^verbatim>\<open>[word=mention]\<close>, where a string matcher is required, is rejected.
\<close>

theorem C6_counterexample:
  "tokenize ''mention'' = Inr [(WORD, ''mention'')] \<and>
   tokenize ''wordy'' = Inr [(WORD, ''word''), (STRING, ''y'')] \<and>
   parse_text ''[word=mention]'' = Inl Expected_string"
  by code_simp

text \<open>
  Claim C6, amended. Let \<open>w\<close> be a bare word, a maximal run of word characters at
  which the scan stands (the text is \<open>pre @ w @ rest\<close>, the scan position \<open>length pre\<close>,
  and \<open>rest\<close> is empty or starts with a character outside \<^verbatim>\<open>\w\<close>), and let no field
  keyword be a prefix of \<open>w\<close>. Then the first matching rule is \<open>STRING\<close> with the whole
  word as its match, the scan loop appends the single token \<open>(STRING, w)\<close> and goes on
  behind the word, and \<open>string_matcher\<close> accepts that token as the literal \<open>w\<close>.
  And for every field keyword \<open>k\<close> at which the scan stands (the text is
  \<open>pre @ k @ behind\<close>), whatever follows it: the first matching rule is \<open>WORD\<close> with the
  keyword as its match, the scan loop appends the token \<open>(WORD, k)\<close> and goes on behind
  the keyword, and \<open>string_matcher\<close> rejects a \<open>WORD\<close> token with the error
  \<^verbatim>\<open>Expected string\<close>.
\<close>

theorem C6_bare_word_is_STRING:
  "(w \<noteq> [] \<and> (\<forall>c\<in>set w. is_word c) \<and> (rest = [] \<or> \<not> is_word (hd rest)) \<and>
    (\<forall>k\<in>set field_names. take (length k) w \<noteq> k)
      \<longrightarrow> first_match TOKEN_TYPES (pre @ w @ rest) (length pre) =
            Some (STRING, length pre + length w) \<and>
          tokenize_loop (pre @ w @ rest) (length pre) toks =
            tokenize_loop (pre @ w @ rest) (length pre + length w) (toks @ [(STRING, w)]) \<and>
          string_matcher \<lparr>tokens = ts, current_token = Some (STRING, w)\<rparr> =
            Inr (AST_EXACT w, TokenConstraintParser ts)) \<and>
   (k \<in> set field_names
      \<longrightarrow> first_match TOKEN_TYPES (pre @ k @ behind) (length pre) =
            Some (WORD, length pre + length k) \<and>
          tokenize_loop (pre @ k @ behind) (length pre) toks =
            tokenize_loop (pre @ k @ behind) (length pre + length k) (toks @ [(WORD, k)]) \<and>
          string_matcher \<lparr>tokens = ts, current_token = Some (WORD, lexeme)\<rparr> =
            Inl Expected_string)"
proof (intro conjI impI)
  assume h: "w \<noteq> [] \<and> (\<forall>c\<in>set w. is_word c) \<and> (rest = [] \<or> \<not> is_word (hd rest)) \<and>
    (\<forall>k\<in>set field_names. take (length k) w \<noteq> k)"
  then have fm: "first_match TOKEN_TYPES (pre @ w @ rest) (length pre) =
            Some (STRING, length pre + length w)"
    by (intro bare_word_first_match) simp_all
  then show "first_match TOKEN_TYPES (pre @ w @ rest) (length pre) =
            Some (STRING, length pre + length w)" .
  from h have lt: "length pre < length (pre @ w @ rest)" by (cases w) auto
  show "tokenize_loop (pre @ w @ rest) (length pre) toks =
           tokenize_loop (pre @ w @ rest) (length pre + length w) (toks @ [(STRING, w)])"
    using lt fm by (subst tokenize_loop.simps) simp
  show "string_matcher \<lparr>tokens = ts, current_token = Some (STRING, w)\<rparr> =
           Inr (AST_EXACT w, TokenConstraintParser ts)"
    by (simp add: string_matcher_def eat_def current_type_def next_token_def
                  TokenConstraintParser_def split: list.splits)
next
  assume k: "k \<in> set field_names"
  note fm = keyword_first_match[OF k, of pre behind]
  from fm show "first_match TOKEN_TYPES (pre @ k @ behind) (length pre) =
            Some (WORD, length pre + length k)" .
  from k have lt: "length pre < length (pre @ k @ behind)"
    by (cases k) (auto simp: field_names_def)
  show "tokenize_loop (pre @ k @ behind) (length pre) toks =
          tokenize_loop (pre @ k @ behind) (length pre + length k) (toks @ [(WORD, k)])"
    using lt fm by (subst tokenize_loop.simps) simp
  show "string_matcher \<lparr>tokens = ts, current_token = Some (WORD, lexeme)\<rparr> =
          Inl Expected_string"
    by (rule string_matcher_rejects_WORD)
qed

text \<open>
  Claim C6, witness: the bare word \<^verbatim>\<open>hello\<close> in \<^verbatim>\<open>[word=hello]\<close>, and the keyword
  \<^verbatim>\<open>mention\<close> in \<^verbatim>\<open>[word=mention]\<close>.
\<close>

theorem C6_witness:
  "''hello'' \<noteq> [] \<and> list_all is_word ''hello'' \<and> \<not> is_word (hd '']'') \<and>
   list_all (\<lambda>k. take (length k) ''hello'' \<noteq> k) field_names \<and>
   first_match TOKEN_TYPES ''[word=hello]'' 6 = Some (STRING, 11) \<and>
   tokenize ''[word=hello]'' =
     Inr [(LBRACKET, ''[''), (WORD, ''word''), (EQUALS, ''=''), (STRING, ''hello''),
          (RBRACKET, '']'')] \<and>
   string_matcher \<lparr>tokens = [(RBRACKET, '']'')], current_token = Some (STRING, ''hello'')\<rparr> =
     Inr (AST_EXACT ''hello'', \<lparr>tokens = [], current_token = Some (RBRACKET, '']'')\<rparr>) \<and>
   ''mention'' \<in> set field_names \<and>
   first_match TOKEN_TYPES ''[word=mention]'' 6 = Some (WORD, 13) \<and>
   tokenize ''[word=mention]'' =
     Inr [(LBRACKET, ''[''), (WORD, ''word''), (EQUALS, ''=''), (WORD, ''mention''),
          (RBRACKET, '']'')] \<and>
   string_matcher \<lparr>tokens = [(RBRACKET, '']'')], current_token = Some (WORD, ''mention'')\<rparr> =
     Inl Expected_string"
proof -
  have a: "''hello'' \<noteq> []" by simp
  have b: "list_all is_word ''hello''" by code_simp
  have c: "\<not> is_word (hd '']'')" by code_simp
  have d: "list_all (\<lambda>k. take (length k) ''hello'' \<noteq> k) field_names" by code_simp
  have e: "tokenize ''[word=hello]'' =
     Inr [(LBRACKET, ''[''), (WORD, ''word''), (EQUALS, ''=''), (STRING, ''hello''),
          (RBRACKET, '']'')]" by code_simp
  have f: "TokenConstraintParser [(RBRACKET, '']'')] =
             \<lparr>tokens = [], current_token = Some (RBRACKET, '']'')\<rparr>" by code_simp
  have g: "''mention'' \<in> set field_names" by (simp add: field_names_def)
  have h: "tokenize ''[word=mention]'' =
     Inr [(LBRACKET, ''[''), (WORD, ''word''), (EQUALS, ''=''), (WORD, ''mention''),
          (RBRACKET, '']'')]" by code_simp
  from C6_bare_word_is_STRING[of "''hello''" "'']''" "''[word=''" "[]" "[(RBRACKET, '']'')]"
      "''mention''" "'']''" "''mention''"]
    a b c d e f g h
  show ?thesis by (simp add: list_all_iff eval_nat_numeral)
qed

text \<open>
  Claim C7. In the three operator loops (\<^verbatim>\<open>&\<close> in \<open>conjunctive_constraint\<close>, \<^verbatim>\<open>|\<close> in
  \<open>disjunctive_constraint\<close>, \<^verbatim>\<open>|\<close> in \<open>disjunctive_token_pattern\<close>): when the first
  operand parses to \<open>a\<close> and the stream continues with a chain of operator and operand
  whose operands parse to \<open>xs\<close>, the production returns \<open>foldl node a xs\<close>, the tree
  nested to the left; for two further operands \<open>b\<close>, \<open>c\<close> that is
  \<open>node (node a b) c\<close>, which differs from the right-nested \<open>node a (node b c)\<close>.
\<close>

theorem C7_left_associative:
  "(negated_constraint p = Inr (a, p1) \<and> operator_chain negated_constraint AND p1 xs p'
      \<longrightarrow> conjunctive_constraint p = Inr (foldl AST_AND a xs, p')) \<and>
   (conjunctive_constraint p = Inr (a, p1) \<and> operator_chain conjunctive_constraint OR p1 xs p'
      \<longrightarrow> disjunctive_constraint p = Inr (foldl AST_OR a xs, p')) \<and>
   (concatenated_token_pattern p = Inr (a, p1) \<and>
    operator_chain concatenated_token_pattern OR p1 xs p'
      \<longrightarrow> disjunctive_token_pattern p = Inr (foldl AST_OR a xs, p')) \<and>
   foldl AST_AND a [b, c] = AST_AND (AST_AND a b) c \<and>
   foldl AST_OR a [b, c] = AST_OR (AST_OR a b) c \<and>
   AST_AND (AST_AND a b) c \<noteq> AST_AND a (AST_AND b c) \<and>
   AST_OR (AST_OR a b) c \<noteq> AST_OR a (AST_OR b c)"
proof -
  have "conjunctive_constraint p = Inr (foldl AST_AND a xs, p')"
    if "negated_constraint p = Inr (a, p1)" "operator_chain negated_constraint AND p1 xs p'"
    using that conjunctive_constraint_loop_chain[of p1 xs p' a]
    by (simp add: conjunctive_constraint.simps[of p])
  moreover have "disjunctive_constraint p = Inr (foldl AST_OR a xs, p')"
    if "conjunctive_constraint p = Inr (a, p1)"
       "operator_chain conjunctive_constraint OR p1 xs p'"
    using that disjunctive_constraint_loop_chain[of p1 xs p' a]
    by (simp add: disjunctive_constraint.simps[of p])
  moreover have "disjunctive_token_pattern p = Inr (foldl AST_OR a xs, p')"
    if "concatenated_token_pattern p = Inr (a, p1)"
       "operator_chain concatenated_token_pattern OR p1 xs p'"
    using that disjunctive_token_pattern_loop_chain[of p1 xs p' a]
    by (simp add: disjunctive_token_pattern.simps[of p])
  ultimately show ?thesis
    using AST_AND_not_right_nested[of a b c] AST_OR_not_right_nested[of a b c] by simp
qed

text \<open>
  Claim C7, witness: the chains \<^verbatim>\<open>word=a & tag=b & lemma=c\<close> and
  \<^verbatim>\<open>word=a | tag=b | lemma=c\<close> inside a bracket, and \<^verbatim>\<open>@a | @b | @c\<close> at the pattern
  level.
\<close>

theorem C7_witness:
  "negated_constraint (TokenConstraintParser
      [(WORD, ''word''), (EQUALS, ''=''), (STRING, ''a''), (AND, ''&''),
       (WORD, ''tag''), (EQUALS, ''=''), (STRING, ''b''), (AND, ''&''),
       (WORD, ''lemma''), (EQUALS, ''=''), (STRING, ''c''), (RBRACKET, '']'')]) =
     Inr (AST_FIELD ''word'' (AST_EXACT ''a''),
          TokenConstraintParser
            [(AND, ''&''), (WORD, ''tag''), (EQUALS, ''=''), (STRING, ''b''), (AND, ''&''),
             (WORD, ''lemma''), (EQUALS, ''=''), (STRING, ''c''), (RBRACKET, '']'')]) \<and>
   operator_chain negated_constraint AND
     (TokenConstraintParser
        [(AND, ''&''), (WORD, ''tag''), (EQUALS, ''=''), (STRING, ''b''), (AND, ''&''),
         (WORD, ''lemma''), (EQUALS, ''=''), (STRING, ''c''), (RBRACKET, '']'')])
     [AST_FIELD ''tag'' (AST_EXACT ''b''), AST_FIELD ''lemma'' (AST_EXACT ''c'')]
     (TokenConstraintParser [(RBRACKET, '']'')]) \<and>
   conjunctive_constraint (TokenConstraintParser
      [(WORD, ''word''), (EQUALS, ''=''), (STRING, ''a''), (AND, ''&''),
       (WORD, ''tag''), (EQUALS, ''=''), (STRING, ''b''), (AND, ''&''),
       (WORD, ''lemma''), (EQUALS, ''=''), (STRING, ''c''), (RBRACKET, '']'')]) =
     Inr (AST_AND (AST_AND (AST_FIELD ''word'' (AST_EXACT ''a''))
                           (AST_FIELD ''tag'' (AST_EXACT ''b'')))
                  (AST_FIELD ''lemma'' (AST_EXACT ''c'')),
          TokenConstraintParser [(RBRACKET, '']'')]) \<and>
   conjunctive_constraint (TokenConstraintParser
      [(WORD, ''word''), (EQUALS, ''=''), (STRING, ''a''), (OR, ''|''),
       (WORD, ''tag''), (EQUALS, ''=''), (STRING, ''b''), (OR, ''|''),
       (WORD, ''lemma''), (EQUALS, ''=''), (STRING, ''c''), (RBRACKET, '']'')]) =
     Inr (AST_FIELD ''word'' (AST_EXACT ''a''),
          TokenConstraintParser
            [(OR, ''|''), (WORD, ''tag''), (EQUALS, ''=''), (STRING, ''b''), (OR, ''|''),
             (WORD, ''lemma''), (EQUALS, ''=''), (STRING, ''c''), (RBRACKET, '']'')]) \<and>
   operator_chain conjunctive_constraint OR
     (TokenConstraintParser
        [(OR, ''|''), (WORD, ''tag''), (EQUALS, ''=''), (STRING, ''b''), (OR, ''|''),
         (WORD, ''lemma''), (EQUALS, ''=''), (STRING, ''c''), (RBRACKET, '']'')])
     [AST_FIELD ''tag'' (AST_EXACT ''b''), AST_FIELD ''lemma'' (AST_EXACT ''c'')]
     (TokenConstraintParser [(RBRACKET, '']'')]) \<and>
   disjunctive_constraint (TokenConstraintParser
      [(WORD, ''word''), (EQUALS, ''=''), (STRING, ''a''), (OR, ''|''),
       (WORD, ''tag''), (EQUALS, ''=''), (STRING, ''b''), (OR, ''|''),
       (WORD, ''lemma''), (EQUALS, ''=''), (STRING, ''c''), (RBRACKET, '']'')]) =
     Inr (AST_OR (AST_OR (AST_FIELD ''word'' (AST_EXACT ''a''))
                         (AST_FIELD ''tag'' (AST_EXACT ''b'')))
                 (AST_FIELD ''lemma'' (AST_EXACT ''c'')),
          TokenConstraintParser [(RBRACKET, '']'')]) \<and>
   concatenated_token_pattern (TokenPatternParser
      [(AT, ''@''), (STRING, ''a''), (OR, ''|''), (AT, ''@''), (STRING, ''b''), (OR, ''|''),
       (AT, ''@''), (STRING, ''c'')]) =
     Inr (AST_MENTION (AST_EXACT ''a''),
          TokenPatternParser
            [(OR, ''|''), (AT, ''@''), (STRING, ''b''), (OR, ''|''), (AT, ''@''), (STRING, ''c'')]) \<and>
   operator_chain concatenated_token_pattern OR
     (TokenPatternParser
        [(OR, ''|''), (AT, ''@''), (STRING, ''b''), (OR, ''|''), (AT, ''@''), (STRING, ''c'')])
     [AST_MENTION (AST_EXACT ''b''), AST_MENTION (AST_EXACT ''c'')]
     (TokenPatternParser []) \<and>
   disjunctive_token_pattern (TokenPatternParser
      [(AT, ''@''), (STRING, ''a''), (OR, ''|''), (AT, ''@''), (STRING, ''b''), (OR, ''|''),
       (AT, ''@''), (STRING, ''c'')]) =
     Inr (AST_OR (AST_OR (AST_MENTION (AST_EXACT ''a'')) (AST_MENTION (AST_EXACT ''b'')))
                 (AST_MENTION (AST_EXACT ''c'')),
          TokenPatternParser [])"
proof -
  let ?A0 = "TokenConstraintParser
      [(WORD, ''word''), (EQUALS, ''=''), (STRING, ''a''), (AND, ''&''),
       (WORD, ''tag''), (EQUALS, ''=''), (STRING, ''b''), (AND, ''&''),
       (WORD, ''lemma''), (EQUALS, ''=''), (STRING, ''c''), (RBRACKET, '']'')]"
  let ?A1 = "TokenConstraintParser
        [(AND, ''&''), (WORD, ''tag''), (EQUALS, ''=''), (STRING, ''b''), (AND, ''&''),
         (WORD, ''lemma''), (EQUALS, ''=''), (STRING, ''c''), (RBRACKET, '']'')]"
  let ?O0 = "TokenConstraintParser
      [(WORD, ''word''), (EQUALS, ''=''), (STRING, ''a''), (OR, ''|''),
       (WORD, ''tag''), (EQUALS, ''=''), (STRING, ''b''), (OR, ''|''),
       (WORD, ''lemma''), (EQUALS, ''=''), (STRING, ''c''), (RBRACKET, '']'')]"
  let ?O1 = "TokenConstraintParser
        [(OR, ''|''), (WORD, ''tag''), (EQUALS, ''=''), (STRING, ''b''), (OR, ''|''),
         (WORD, ''lemma''), (EQUALS, ''=''), (STRING, ''c''), (RBRACKET, '']'')]"
  let ?E = "TokenConstraintParser [(RBRACKET, '']'')]"
  let ?P0 = "TokenPatternParser
      [(AT, ''@''), (STRING, ''a''), (OR, ''|''), (AT, ''@''), (STRING, ''b''), (OR, ''|''),
       (AT, ''@''), (STRING, ''c'')]"
  let ?P1 = "TokenPatternParser
        [(OR, ''|''), (AT, ''@''), (STRING, ''b''), (OR, ''|''), (AT, ''@''), (STRING, ''c'')]"
  let ?xs = "[AST_FIELD ''tag'' (AST_EXACT ''b''), AST_FIELD ''lemma'' (AST_EXACT ''c'')]"
  let ?ms = "[AST_MENTION (AST_EXACT ''b''), AST_MENTION (AST_EXACT ''c'')]"
  have a1: "negated_constraint ?A0 = Inr (AST_FIELD ''word'' (AST_EXACT ''a''), ?A1)"
    by code_simp
  have a2: "operator_chain negated_constraint AND ?A1 ?xs ?E" by code_simp
  have o1: "conjunctive_constraint ?O0 = Inr (AST_FIELD ''word'' (AST_EXACT ''a''), ?O1)"
    by code_simp
  have o2: "operator_chain conjunctive_constraint OR ?O1 ?xs ?E" by code_simp
  have p1: "concatenated_token_pattern ?P0 = Inr (AST_MENTION (AST_EXACT ''a''), ?P1)"
    by code_simp
  have p2: "operator_chain concatenated_token_pattern OR ?P1 ?ms (TokenPatternParser [])"
    by code_simp
  from C7_left_associative[of ?A0 "AST_FIELD ''word'' (AST_EXACT ''a'')" ?A1 ?xs ?E] a1 a2
  have a3: "conjunctive_constraint ?A0 =
              Inr (foldl AST_AND (AST_FIELD ''word'' (AST_EXACT ''a'')) ?xs, ?E)" by blast
  from C7_left_associative[of ?O0 "AST_FIELD ''word'' (AST_EXACT ''a'')" ?O1 ?xs ?E] o1 o2
  have o3: "disjunctive_constraint ?O0 =
              Inr (foldl AST_OR (AST_FIELD ''word'' (AST_EXACT ''a'')) ?xs, ?E)" by blast
  from C7_left_associative[of ?P0 "AST_MENTION (AST_EXACT ''a'')" ?P1 ?ms "TokenPatternParser []"]
    p1 p2
  have p3: "disjunctive_token_pattern ?P0 =
              Inr (foldl AST_OR (AST_MENTION (AST_EXACT ''a'')) ?ms, TokenPatternParser [])"
    by blast
  from a1 a2 a3 o1 o2 o3 p1 p2 p3 show ?thesis by simp
qed

text \<open>
  Claim C8. Where the stream continues with \<^verbatim>\<open>!\<close>, an atomic constraint parsing to
  \<open>a\<close>, \<^verbatim>\<open>&\<close>, an atomic constraint parsing to \<open>b\<close> and then no further \<^verbatim>\<open>&\<close>,
  \<open>conjunctive_constraint\<close> returns \<open>AND (NOT a) b\<close>, which is not \<open>NOT (AND a b)\<close>. And
  whenever \<open>negated_constraint\<close> starts on \<^verbatim>\<open>!\<close> and succeeds, its result is \<open>NOT\<close> applied
  to what \<open>atomic_constraint\<close> returns for the tokens right after the \<^verbatim>\<open>!\<close>, and it stops
  where that atomic constraint stops.
\<close>

theorem C8_negation_binds_tighter:
  "(current_type p = Some NOT \<and> eat NOT p = Inr p1 \<and> atomic_constraint p1 = Inr (a, p2) \<and>
    current_type p2 = Some AND \<and> eat AND p2 = Inr p3 \<and>
    current_type p3 \<noteq> Some NOT \<and> atomic_constraint p3 = Inr (b, p4) \<and>
    current_type p4 \<noteq> Some AND
      \<longrightarrow> conjunctive_constraint p = Inr (AST_AND (AST_NOT a) b, p4) \<and>
          AST_AND (AST_NOT a) b \<noteq> AST_NOT (AST_AND a b)) \<and>
   (current_type p = Some NOT \<and> negated_constraint p = Inr (t, p')
      \<longrightarrow> (\<exists>operand q. eat NOT p = Inr q \<and> atomic_constraint q = Inr (operand, p') \<and>
                        t = AST_NOT operand))"
proof (intro conjI impI)
  assume h: "current_type p = Some NOT \<and> eat NOT p = Inr p1 \<and>
    atomic_constraint p1 = Inr (a, p2) \<and> current_type p2 = Some AND \<and> eat AND p2 = Inr p3 \<and>
    current_type p3 \<noteq> Some NOT \<and> atomic_constraint p3 = Inr (b, p4) \<and>
    current_type p4 \<noteq> Some AND"
  then have n1: "negated_constraint p = Inr (AST_NOT a, p2)"
    by (simp add: negated_constraint.simps[of p])
  from h have n2: "negated_constraint p3 = Inr (b, p4)"
    by (simp add: negated_constraint.simps[of p3])
  from h have "conjunctive_constraint_loop (AST_AND (AST_NOT a) b) p4 =
                 Inr (AST_AND (AST_NOT a) b, p4)"
    by (simp add: conjunctive_constraint_loop.simps[of _ p4])
  with h n2 have "conjunctive_constraint_loop (AST_NOT a) p2 = Inr (AST_AND (AST_NOT a) b, p4)"
    by (simp add: conjunctive_constraint_loop.simps[of _ p2])
  with n1 show "conjunctive_constraint p = Inr (AST_AND (AST_NOT a) b, p4)"
    by (simp add: conjunctive_constraint.simps[of p])
next
  show "AST_AND (AST_NOT a) b \<noteq> AST_NOT (AST_AND a b)" by simp
next
  assume "current_type p = Some NOT \<and> negated_constraint p = Inr (t, p')"
  then show "\<exists>operand q. eat NOT p = Inr q \<and> atomic_constraint q = Inr (operand, p') \<and>
                          t = AST_NOT operand"
    by (auto simp: negated_constraint.simps[of p] split: sum.splits)
qed

text \<open>
  Claim C8, witness: the tokens of \<^verbatim>\<open>!word=a & tag=b]\<close>.
\<close>

theorem C8_witness:
  "current_type (TokenConstraintParser
      [(NOT, ''!''), (WORD, ''word''), (EQUALS, ''=''), (STRING, ''a''), (AND, ''&''),
       (WORD, ''tag''), (EQUALS, ''=''), (STRING, ''b''), (RBRACKET, '']'')]) = Some NOT \<and>
   eat NOT (TokenConstraintParser
      [(NOT, ''!''), (WORD, ''word''), (EQUALS, ''=''), (STRING, ''a''), (AND, ''&''),
       (WORD, ''tag''), (EQUALS, ''=''), (STRING, ''b''), (RBRACKET, '']'')]) =
     Inr (TokenConstraintParser
      [(WORD, ''word''), (EQUALS, ''=''), (STRING, ''a''), (AND, ''&''),
       (WORD, ''tag''), (EQUALS, ''=''), (STRING, ''b''), (RBRACKET, '']'')]) \<and>
   atomic_constraint (TokenConstraintParser
      [(WORD, ''word''), (EQUALS, ''=''), (STRING, ''a''), (AND, ''&''),
       (WORD, ''tag''), (EQUALS, ''=''), (STRING, ''b''), (RBRACKET, '']'')]) =
     Inr (AST_FIELD ''word'' (AST_EXACT ''a''),
          TokenConstraintParser
            [(AND, ''&''), (WORD, ''tag''), (EQUALS, ''=''), (STRING, ''b''), (RBRACKET, '']'')]) \<and>
   current_type (TokenConstraintParser
      [(AND, ''&''), (WORD, ''tag''), (EQUALS, ''=''), (STRING, ''b''), (RBRACKET, '']'')]) =
     Some AND \<and>
   eat AND (TokenConstraintParser
      [(AND, ''&''), (WORD, ''tag''), (EQUALS, ''=''), (STRING, ''b''), (RBRACKET, '']'')]) =
     Inr (TokenConstraintParser
      [(WORD, ''tag''), (EQUALS, ''=''), (STRING, ''b''), (RBRACKET, '']'')]) \<and>
   current_type (TokenConstraintParser
      [(WORD, ''tag''), (EQUALS, ''=''), (STRING, ''b''), (RBRACKET, '']'')]) \<noteq> Some NOT \<and>
   atomic_constraint (TokenConstraintParser
      [(WORD, ''tag''), (EQUALS, ''=''), (STRING, ''b''), (RBRACKET, '']'')]) =
     Inr (AST_FIELD ''tag'' (AST_EXACT ''b''), TokenConstraintParser [(RBRACKET, '']'')]) \<and>
   current_type (TokenConstraintParser [(RBRACKET, '']'')]) \<noteq> Some AND \<and>
   conjunctive_constraint (TokenConstraintParser
      [(NOT, ''!''), (WORD, ''word''), (EQUALS, ''=''), (STRING, ''a''), (AND, ''&''),
       (WORD, ''tag''), (EQUALS, ''=''), (STRING, ''b''), (RBRACKET, '']'')]) =
     Inr (AST_AND (AST_NOT (AST_FIELD ''word'' (AST_EXACT ''a'')))
                  (AST_FIELD ''tag'' (AST_EXACT ''b'')),
          TokenConstraintParser [(RBRACKET, '']'')]) \<and>
   negated_constraint (TokenConstraintParser
      [(NOT, ''!''), (WORD, ''word''), (EQUALS, ''=''), (STRING, ''a''), (AND, ''&''),
       (WORD, ''tag''), (EQUALS, ''=''), (STRING, ''b''), (RBRACKET, '']'')]) =
     Inr (AST_NOT (AST_FIELD ''word'' (AST_EXACT ''a'')),
          TokenConstraintParser
            [(AND, ''&''), (WORD, ''tag''), (EQUALS, ''=''), (STRING, ''b''), (RBRACKET, '']'')])"
proof -
  let ?p = "TokenConstraintParser
      [(NOT, ''!''), (WORD, ''word''), (EQUALS, ''=''), (STRING, ''a''), (AND, ''&''),
       (WORD, ''tag''), (EQUALS, ''=''), (STRING, ''b''), (RBRACKET, '']'')]"
  let ?p1 = "TokenConstraintParser
      [(WORD, ''word''), (EQUALS, ''=''), (STRING, ''a''), (AND, ''&''),
       (WORD, ''tag''), (EQUALS, ''=''), (STRING, ''b''), (RBRACKET, '']'')]"
  let ?p2 = "TokenConstraintParser
      [(AND, ''&''), (WORD, ''tag''), (EQUALS, ''=''), (STRING, ''b''), (RBRACKET, '']'')]"
  let ?p3 = "TokenConstraintParser
      [(WORD, ''tag''), (EQUALS, ''=''), (STRING, ''b''), (RBRACKET, '']'')]"
  let ?p4 = "TokenConstraintParser [(RBRACKET, '']'')]"
  let ?a = "AST_FIELD ''word'' (AST_EXACT ''a'')"
  let ?b = "AST_FIELD ''tag'' (AST_EXACT ''b'')"
  have h1: "current_type ?p = Some NOT" by code_simp
  have h2: "eat NOT ?p = Inr ?p1" by code_simp
  have h3: "atomic_constraint ?p1 = Inr (?a, ?p2)" by code_simp
  have h4: "current_type ?p2 = Some AND" by code_simp
  have h5: "eat AND ?p2 = Inr ?p3" by code_simp
  have h6: "current_type ?p3 \<noteq> Some NOT" by code_simp
  have h7: "atomic_constraint ?p3 = Inr (?b, ?p4)" by code_simp
  have h8: "current_type ?p4 \<noteq> Some AND" by code_simp
  have h9: "negated_constraint ?p = Inr (AST_NOT ?a, ?p2)" by code_simp
  from C8_negation_binds_tighter[of ?p ?p1 ?a ?p2 ?p3 ?b ?p4 "AST_NOT ?a" ?p2]
    h1 h2 h3 h4 h5 h6 h7 h8
  have c: "conjunctive_constraint ?p = Inr (AST_AND (AST_NOT ?a) ?b, ?p4)" by blast
  from h1 h2 h3 h4 h5 h6 h7 h8 h9 c show ?thesis by simp
qed

text \<open>
  Claim C9. When \<open>concatenated_token_pattern\<close> parses a first quantified pattern \<open>x\<close>
  and its loop then collects the patterns \<open>xs\<close>, in this order, the result is \<open>x\<close>
  itself if \<open>xs\<close> is empty (one pattern collected, no \<open>SEQ\<close> wrapper) and otherwise
  \<open>SEQ (x # xs)\<close>, the collected nodes in source order.
\<close>

theorem C9_sequence_collapse:
  "quantified_token_pattern p = Inr (x, p1) \<and> collected p1 xs p'
     \<longrightarrow> concatenated_token_pattern p =
           Inr (if xs = [] then x else AST_SEQ (x # xs), p')"
proof
  assume h: "quantified_token_pattern p = Inr (x, p1) \<and> collected p1 xs p'"
  then have "concatenated_token_pattern_loop [x] p1 = Inr ([x] @ xs, p')"
    by (intro concatenated_token_pattern_loop_collected) simp
  with h show "concatenated_token_pattern p =
           Inr (if xs = [] then x else AST_SEQ (x # xs), p')"
    by (simp add: concatenated_token_pattern.simps[of p])
qed

text \<open>
  Claim C9, witness: the tokens of \<^verbatim>\<open>[] @x)\<close> give a \<open>SEQ\<close> of two, those of
  \<^verbatim>\<open>@x)\<close> the mention alone.
\<close>

theorem C9_witness:
  "quantified_token_pattern (TokenPatternParser
      [(LBRACKET, ''[''), (RBRACKET, '']''), (AT, ''@''), (STRING, ''x''), (RPAREN, '')'')]) =
     Inr (AST_None, TokenPatternParser [(AT, ''@''), (STRING, ''x''), (RPAREN, '')'')]) \<and>
   collected (TokenPatternParser [(AT, ''@''), (STRING, ''x''), (RPAREN, '')'')])
     [AST_MENTION (AST_EXACT ''x'')] (TokenPatternParser [(RPAREN, '')'')]) \<and>
   concatenated_token_pattern (TokenPatternParser
      [(LBRACKET, ''[''), (RBRACKET, '']''), (AT, ''@''), (STRING, ''x''), (RPAREN, '')'')]) =
     Inr (AST_SEQ [AST_None, AST_MENTION (AST_EXACT ''x'')],
          TokenPatternParser [(RPAREN, '')'')]) \<and>
   quantified_token_pattern (TokenPatternParser
      [(AT, ''@''), (STRING, ''x''), (RPAREN, '')'')]) =
     Inr (AST_MENTION (AST_EXACT ''x''), TokenPatternParser [(RPAREN, '')'')]) \<and>
   collected (TokenPatternParser [(RPAREN, '')'')]) [] (TokenPatternParser [(RPAREN, '')'')]) \<and>
   concatenated_token_pattern (TokenPatternParser
      [(AT, ''@''), (STRING, ''x''), (RPAREN, '')'')]) =
     Inr (AST_MENTION (AST_EXACT ''x''), TokenPatternParser [(RPAREN, '')'')])"
proof -
  let ?p = "TokenPatternParser
      [(LBRACKET, ''[''), (RBRACKET, '']''), (AT, ''@''), (STRING, ''x''), (RPAREN, '')'')]"
  let ?p1 = "TokenPatternParser [(AT, ''@''), (STRING, ''x''), (RPAREN, '')'')]"
  let ?p2 = "TokenPatternParser [(RPAREN, '')'')]"
  let ?m = "AST_MENTION (AST_EXACT ''x'')"
  have h1: "quantified_token_pattern ?p = Inr (AST_None, ?p1)" by code_simp
  have h2: "collected ?p1 [?m] ?p2" by code_simp
  have h3: "quantified_token_pattern ?p1 = Inr (?m, ?p2)" by code_simp
  have h4: "collected ?p2 [] ?p2" by code_simp
  from C9_sequence_collapse[of ?p AST_None ?p1 "[?m]" ?p2] h1 h2
  have c1: "concatenated_token_pattern ?p = Inr (AST_SEQ [AST_None, ?m], ?p2)" by simp
  from C9_sequence_collapse[of ?p1 ?m ?p2 "[]" ?p2] h3 h4
  have c2: "concatenated_token_pattern ?p1 = Inr (?m, ?p2)" by simp
  from h1 h2 h3 h4 c1 c2 show ?thesis by simp
qed

text \<open>
  Claim C3. No token list that \<open>tokenize\<close> returns holds a \<open>CAPTURE_START\<close> or a
  \<open>LOOKAHEAD_START\<close> token. Whenever the scan stands at a position where the text
  continues with \<^verbatim>\<open>(?<\<close>, it emits \<^verbatim>\<open>(\<close> and \<^verbatim>\<open>?\<close> through the single-character rules
  and then fails on \<^verbatim>\<open><\<close>, whatever tokens it has collected. And the pipeline rejects
  every text in which a capture opener \<^verbatim>\<open>(?<\<close> follows text that lexes on its own (so
  that the opener is not inside a quoted string): lexing fails on the \<^verbatim>\<open><\<close>, before any
  parsing.
\<close>

theorem C3_capture_unreachable:
  "(tokenize text = Inr toks \<longrightarrow>
      (\<forall>t\<in>set toks. fst t \<noteq> CAPTURE_START \<and> fst t \<noteq> LOOKAHEAD_START)) \<and>
   (pos + 2 < length text \<and> text ! pos = CHR ''('' \<and> text ! (pos + 1) = CHR ''?'' \<and>
    text ! (pos + 2) = CHR ''<''
      \<longrightarrow> tokenize_loop text pos collected_tokens = Inl (Unknown_character CHR ''<'')) \<and>
   (tokenize pre = Inr pre_toks
      \<longrightarrow> parse_text (pre @ ''(?<'' @ rest) = Inl (Unknown_character CHR ''<''))"
proof (intro conjI impI ballI)
  fix t assume "tokenize text = Inr toks" "t \<in> set toks"
  from tokenize_types[OF this] show "fst t \<noteq> CAPTURE_START" "fst t \<noteq> LOOKAHEAD_START"
    by (auto simp: unreachable_types_def)
next
  assume "pos + 2 < length text \<and> text ! pos = CHR ''('' \<and> text ! (pos + 1) = CHR ''?'' \<and>
    text ! (pos + 2) = CHR ''<''"
  then show "tokenize_loop text pos collected_tokens = Inl (Unknown_character CHR ''<'')"
    by (intro capture_opener_fails) auto
next
  assume "tokenize pre = Inr pre_toks"
  then have "tokenize (pre @ ''(?<'' @ rest) = Inl (Unknown_character CHR ''<'')"
    by (rule capture_opener_after_tokens)
  then show "parse_text (pre @ ''(?<'' @ rest) = Inl (Unknown_character CHR ''<'')"
    by (simp add: parse_text_def)
qed

text \<open>
  Claim C3, witness: \<^verbatim>\<open>(?=[])\<close> lexes without a lookahead token; the scan of
  \<^verbatim>\<open>[] (?<x>[])\<close> reaches the capture opener at position 3 and fails there; and since
  the text before the opener lexes, the pipeline rejects the whole.
\<close>

theorem C3_witness:
  "tokenize ''(?=[])'' =
     Inr [(LPAREN, ''(''), (QUESTION, ''?''), (EQUALS, ''=''), (LBRACKET, ''[''),
          (RBRACKET, '']''), (RPAREN, '')'')] \<and>
   CAPTURE_START \<notin> set (map fst [(LPAREN, ''(''), (QUESTION, ''?''), (EQUALS, ''=''),
      (LBRACKET, ''[''), (RBRACKET, '']''), (RPAREN, '')'')]) \<and>
   LOOKAHEAD_START \<notin> set (map fst [(LPAREN, ''(''), (QUESTION, ''?''), (EQUALS, ''=''),
      (LBRACKET, ''[''), (RBRACKET, '']''), (RPAREN, '')'')]) \<and>
   (3::nat) + 2 < length ''[] (?<x>[])'' \<and> ''[] (?<x>[])'' ! 3 = CHR ''('' \<and>
   ''[] (?<x>[])'' ! (3 + 1) = CHR ''?'' \<and> ''[] (?<x>[])'' ! (3 + 2) = CHR ''<'' \<and>
   tokenize_loop ''[] (?<x>[])'' 3 [(LBRACKET, ''[''), (RBRACKET, '']'')] =
     Inl (Unknown_character CHR ''<'') \<and>
   tokenize ''[] '' = Inr [(LBRACKET, ''[''), (RBRACKET, '']'')] \<and>
   parse_text ''[] (?<x>[])'' = Inl (Unknown_character CHR ''<'')"
proof -
  have a: "tokenize ''(?=[])'' =
     Inr [(LPAREN, ''(''), (QUESTION, ''?''), (EQUALS, ''=''), (LBRACKET, ''[''),
          (RBRACKET, '']''), (RPAREN, '')'')]" by code_simp
  have b: "(3::nat) + 2 < length ''[] (?<x>[])'' \<and> ''[] (?<x>[])'' ! 3 = CHR ''('' \<and>
   ''[] (?<x>[])'' ! (3 + 1) = CHR ''?'' \<and> ''[] (?<x>[])'' ! (3 + 2) = CHR ''<''"
    by code_simp
  have c: "tokenize ''[] '' = Inr [(LBRACKET, ''[''), (RBRACKET, '']'')]" by code_simp
  note th = C3_capture_unreachable[of "''[] (?<x>[])''" _ 3 "[(LBRACKET, ''[''), (RBRACKET, '']'')]"
      "''[] ''" "[(LBRACKET, ''[''), (RBRACKET, '']'')]" "''x>[])''"]
  from th b have d: "tokenize_loop ''[] (?<x>[])'' 3 [(LBRACKET, ''[''), (RBRACKET, '']'')] =
     Inl (Unknown_character CHR ''<'')" by blast
  from th c have e: "parse_text ''[] (?<x>[])'' = Inl (Unknown_character CHR ''<'')" by simp
  from C3_capture_unreachable[of "''(?=[])''" _ 0 "[]" "[]" "[]" "[]"] a
  have f: "\<forall>t\<in>set [(LPAREN, ''(''), (QUESTION, ''?''), (EQUALS, ''=''), (LBRACKET, ''[''),
          (RBRACKET, '']''), (RPAREN, '')'')]. fst t \<noteq> CAPTURE_START \<and> fst t \<noteq> LOOKAHEAD_START"
    by blast
  from a b c d e f show ?thesis by simp
qed

text \<open>
  Claim C1, as stated, fails: for \<^verbatim>\<open>[word="a"]]\<close>, a well-formed bracketed constraint
  with a stray \<^verbatim>\<open>]\<close> behind it, the pipeline raises no error; it returns the tree of the
  constraint and leaves the stray token as the current token.
\<close>

theorem C1_counterexample:
  "parse_text ''[word=\"a\"]]'' =
     Inr (AST_FIELD ''word'' (AST_EXACT ''\"a\"''),
          \<lparr>tokens = [], current_token = Some (RBRACKET, '']'')\<rparr>) \<and>
   parsed_ast ''[word=\"a\"]]'' = Inr (AST_FIELD ''word'' (AST_EXACT ''\"a\"''))"
  by code_simp

text \<open>
  Claim C1, amended. If the tokens \<open>toks\<close> parse as a complete token pattern (the parser
  consumes them all and returns the tree \<open>a\<close>), and they are followed by a token \<open>t\<close> that
  the pattern parser does not look ahead for (any token other than \<^verbatim>\<open>|\<close>, a quantifier,
  a field keyword, \<^verbatim>\<open>(\<close>, \<^verbatim>\<open>[\<close>, \<^verbatim>\<open>@\<close>, a capture opener or a string) and by any further
  tokens \<open>rest\<close>, then \<open>parse_token_pattern\<close> raises no error: it returns the same tree
  \<open>a\<close> and leaves \<open>t\<close> as the current token with \<open>rest\<close> behind it, unconsumed.
\<close>

theorem C1_trailing_tokens_left_unconsumed:
  "parse_token_pattern (TokenPatternParser toks) = Inr (a, p') \<and> current_token p' = None \<and>
   fst t \<notin> continuing
     \<longrightarrow> parse_token_pattern (TokenPatternParser (toks @ t # rest)) =
           Inr (a, TokenPatternParser (t # rest))"
proof
  assume h: "parse_token_pattern (TokenPatternParser toks) = Inr (a, p') \<and>
    current_token p' = None \<and> fst t \<notin> continuing"
  then have d: "disjunctive_token_pattern (TokenConstraintParser toks) = Inr (a, p')"
    by (simp add: parse_token_pattern_def TokenPatternParser_def)
  from h have u: "unseen continuing p' (t # rest)" by (simp add: unseen_def)
  from pattern_followed_by(1)[OF well_formed_TokenConstraintParser d u]
  have w: "well_formed p'" and
    r: "disjunctive_token_pattern (TokenConstraintParser (toks @ t # rest)) =
          Inr (a, followed_by p' (t # rest))"
    by simp_all
  from h have "followed_by p' (t # rest) = TokenConstraintParser (t # rest)"
    by (simp add: followed_by_def)
  with r show "parse_token_pattern (TokenPatternParser (toks @ t # rest)) =
           Inr (a, TokenPatternParser (t # rest))"
    by (simp add: parse_token_pattern_def TokenPatternParser_def)
qed

text \<open>
  Claim C1, witness: the tokens of \<^verbatim>\<open>[word=a]\<close>, followed by a stray \<^verbatim>\<open>]\<close> and a \<^verbatim>\<open>)\<close>.
\<close>

theorem C1_witness:
  "parse_token_pattern (TokenPatternParser
      [(LBRACKET, ''[''), (WORD, ''word''), (EQUALS, ''=''), (STRING, ''a''), (RBRACKET, '']'')]) =
     Inr (AST_FIELD ''word'' (AST_EXACT ''a''), \<lparr>tokens = [], current_token = None\<rparr>) \<and>
   current_token \<lparr>tokens = [], current_token = None\<rparr> = None \<and>
   fst (RBRACKET, '']'') \<notin> continuing \<and>
   parse_token_pattern (TokenPatternParser
      [(LBRACKET, ''[''), (WORD, ''word''), (EQUALS, ''=''), (STRING, ''a''), (RBRACKET, '']''),
       (RBRACKET, '']''), (RPAREN, '')'')]) =
     Inr (AST_FIELD ''word'' (AST_EXACT ''a''),
          \<lparr>tokens = [(RPAREN, '')'')], current_token = Some (RBRACKET, '']'')\<rparr>)"
proof -
  let ?toks = "[(LBRACKET, ''[''), (WORD, ''word''), (EQUALS, ''=''), (STRING, ''a''),
                (RBRACKET, '']'')]"
  let ?a = "AST_FIELD ''word'' (AST_EXACT ''a'')"
  have h1: "parse_token_pattern (TokenPatternParser ?toks) =
              Inr (?a, \<lparr>tokens = [], current_token = None\<rparr>)" by code_simp
  have h2: "fst (RBRACKET, '']'') \<notin> continuing" by (simp add: continuing_def)
  have e: "TokenPatternParser [(RBRACKET, '']''), (RPAREN, '')'')] =
             \<lparr>tokens = [(RPAREN, '')'')], current_token = Some (RBRACKET, '']'')\<rparr>"
    by code_simp
  from C1_trailing_tokens_left_unconsumed[of ?toks ?a "\<lparr>tokens = [], current_token = None\<rparr>"
      "(RBRACKET, '']'')" "[(RPAREN, '')'')]"] h1 h2 e
  have "parse_token_pattern (TokenPatternParser (?toks @ [(RBRACKET, '']''), (RPAREN, '')'')])) =
     Inr (?a, \<lparr>tokens = [(RPAREN, '')'')], current_token = Some (RBRACKET, '']'')\<rparr>)"
    by simp
  with h1 h2 show ?thesis by simp
qed

end
